theory Spec2Isabelle
  imports Complex_Main "HOL-Library.Multiset"
begin

section \<open>Errors\<close>

text \<open>
  The C++ code throws \<open>std::invalid_argument\<close> or \<open>std::logic_error\<close> and, where it
  dereferences an end iterator or indexes a vector out of range, has no defined
  behaviour. All three are results of the model, so that every operation is a total
  function into \<open>error + state\<close>.
\<close>

datatype error = InvalidArgument | LogicError | Undefined

section \<open>Trajectory index (multiscale/traj.cpp)\<close>

text \<open>
  Modelled from the spec: the class \<open>Traj\<close> is declared in \<open>traj.hpp\<close>, which is not among
  the sources. A trajectory is a starting frame and one position index per consecutive
  frame; \<open>Traj(t, p)\<close> starts one at position \<open>p\<close> of frame \<open>t\<close>, and \<open>push_back\<close> adds the
  position in the next frame.
\<close>

record Traj =
  start :: nat
  positions :: "nat list"

definition new_Traj :: "nat \<Rightarrow> nat \<Rightarrow> Traj" where
  "new_Traj t p = \<lparr>start = t, positions = [p]\<rparr>"

definition Traj_push_back :: "Traj \<Rightarrow> nat \<Rightarrow> Traj" where
  "Traj_push_back tr p = tr\<lparr>positions := positions tr @ [p]\<rparr>"

text \<open>
  The index keeps \<open>tr2pos\<close> (trajectory id to trajectory) and \<open>pos2tr\<close> (frame, position
  to trajectory id). A link is a pair of positions (\<open>first\<close> in the previous frame,
  \<open>second\<close> in the new one) with a distance, ordered by distance alone. Distances are
  C++ doubles; they are modelled as reals, so rounding and NaN are outside the model.
\<close>

record TrajIndex =
  tr2pos :: "Traj list"
  pos2tr :: "nat list list"

record Link =
  first :: nat
  second :: nat
  distance :: real

text \<open>The constructor: one singleton trajectory per position of frame 0.\<close>

definition TrajIndex_init :: "nat \<Rightarrow> TrajIndex" where
  "TrajIndex_init n =
     \<lparr>tr2pos = map (new_Traj 0) [0..<n], pos2tr = [[0..<n]]\<rparr>"

text \<open>\<open>std::max_element\<close> returns the end iterator on an empty range: \<open>None\<close>.\<close>

fun max_element :: "nat list \<Rightarrow> nat option" where
  "max_element [] = None"
| "max_element (x # xs) = Some (fold max xs x)"

definition make_bonds :: "real list \<Rightarrow> nat list \<Rightarrow> nat list \<Rightarrow> Link list" where
  "make_bonds distances p_from p_to =
     map (\<lambda>i. \<lparr>first = p_from ! i, second = p_to ! i, distance = distances ! i\<rparr>)
       [0..<length distances]"

text \<open>
  The linking loop over the sorted bonds. The state is \<open>from_used\<close>, \<open>to_used\<close>, the new
  frame of \<open>pos2tr\<close> and \<open>tr2pos\<close>; \<open>prev\<close> is the previous frame of \<open>pos2tr\<close>.
\<close>

fun link_bonds ::
  "nat list \<Rightarrow> Link list \<Rightarrow> bool list \<times> bool list \<times> nat list \<times> Traj list \<Rightarrow>
   error + (bool list \<times> bool list \<times> nat list \<times> Traj list)" where
  "link_bonds prev [] s = Inr s"
| "link_bonds prev (b # bs) (from_used, to_used, cur, trs) =
     (if length from_used \<le> first b then Inl Undefined
      else if \<not> from_used ! first b \<and> length to_used \<le> second b then Inl Undefined
      else if \<not> from_used ! first b \<and> \<not> to_used ! second b then
        (if length prev \<le> first b \<or> length cur \<le> second b then Inl Undefined
         else let tr = prev ! first b in
           if length trs \<le> tr then Inl Undefined
           else link_bonds prev bs
                  (from_used[first b := True], to_used[second b := True],
                   cur[second b := tr], trs[tr := Traj_push_back (trs ! tr) (second b)]))
      else link_bonds prev bs (from_used, to_used, cur, trs))"

text \<open>The loop that starts a trajectory at every position of the new frame left unlinked.\<close>

definition start_traj :: "nat \<Rightarrow> bool list \<Rightarrow> nat \<Rightarrow> nat list \<times> Traj list \<Rightarrow> nat list \<times> Traj list" where
  "start_traj t to_used p s =
     (case s of (cur, trs) \<Rightarrow>
        if \<not> to_used ! p then (cur[p := length trs], trs @ [new_Traj t p]) else (cur, trs))"

definition add_Frame ::
  "TrajIndex \<Rightarrow> nat \<Rightarrow> real list \<Rightarrow> nat list \<Rightarrow> nat list \<Rightarrow> error + TrajIndex" where
  "add_Frame ti frame_size distances p_from p_to =
     (if length distances \<noteq> length p_from \<or> length p_from \<noteq> length p_to
      then Inl InvalidArgument
      else case max_element p_to of
        None \<Rightarrow> Inl Undefined
      | Some m \<Rightarrow>
          if frame_size \<le> m then Inl InvalidArgument
          else if pos2tr ti = [] then Inl Undefined
          else
            let bonds = sort_key distance (make_bonds distances p_from p_to);
                prev = last (pos2tr ti)
            in case link_bonds prev bonds
                      (replicate (length prev) False, replicate frame_size False,
                       replicate frame_size 0, tr2pos ti) of
                 Inl e \<Rightarrow> Inl e
               | Inr (from_used, to_used, cur, trs) \<Rightarrow>
                   (let new = fold (start_traj (length (pos2tr ti)) to_used)
                                [0..<length to_used] (cur, trs)
                    in Inr \<lparr>tr2pos = snd new, pos2tr = pos2tr ti @ [fst new]\<rparr>))"

text \<open>
  The greedy scan in the words of the specification: the links are visited in the given
  order, and a link is accepted iff neither its \<open>from\<close> position nor its \<open>to\<close> position
  was used by a link accepted earlier. \<open>F\<close> and \<open>T\<close> are the positions used so far.
\<close>

fun greedy_scan :: "Link list \<Rightarrow> nat set \<Rightarrow> nat set \<Rightarrow> Link list" where
  "greedy_scan [] F T = []"
| "greedy_scan (b # bs) F T =
     (if first b \<notin> F \<and> second b \<notin> T
      then b # greedy_scan bs (insert (first b) F) (insert (second b) T)
      else greedy_scan bs F T)"

definition accepted_links :: "real list \<Rightarrow> nat list \<Rightarrow> nat list \<Rightarrow> Link list" where
  "accepted_links distances p_from p_to =
     greedy_scan (sort_key distance (make_bonds distances p_from p_to)) {} {}"

text \<open>The effect of a list of accepted links on the state of the linking loop.\<close>

fun apply_links ::
  "nat list \<Rightarrow> Link list \<Rightarrow> bool list \<times> bool list \<times> nat list \<times> Traj list \<Rightarrow>
   bool list \<times> bool list \<times> nat list \<times> Traj list" where
  "apply_links prev [] s = s"
| "apply_links prev (b # bs) (from_used, to_used, cur, trs) =
     apply_links prev bs
       (from_used[first b := True], to_used[second b := True],
        cur[second b := prev ! first b],
        trs[prev ! first b := Traj_push_back (trs ! (prev ! first b)) (second b)])"

definition used :: "bool list \<Rightarrow> nat set" where
  "used bs = {i. i < length bs \<and> bs ! i}"

text \<open>
  Modelled from the spec: \<open>traj.hpp\<close> is not among the sources. \<open>getTraj t p\<close> reads
  \<open>pos2tr[t][p]\<close>, and the size of the index is its number of trajectories.
\<close>

definition getTraj :: "TrajIndex \<Rightarrow> nat \<Rightarrow> nat \<Rightarrow> nat option" where
  "getTraj ti t p =
     (if t < length (pos2tr ti) \<and> p < length (pos2tr ti ! t)
      then Some (pos2tr ti ! t ! p) else None)"

definition TrajIndex_size :: "TrajIndex \<Rightarrow> nat" where
  "TrajIndex_size ti = length (tr2pos ti)"

definition nbFrames :: "TrajIndex \<Rightarrow> nat" where
  "nbFrames ti = length (pos2tr ti)"

section \<open>Reconstructor (multiscale/reconstructor.cpp)\<close>

text \<open>
  Modelled from the spec: the centre classes and \<open>reconstructor.h\<close> are not among the
  sources. A \<open>Center2D\<close> is a planar position, a radius and an intensity; \<open>Center3D (c, t)\<close>
  is the same detection with the frame index as third coordinate. The reconstructor is
  empty until a frame was pushed, and its size is the number of frames of its index.
\<close>

record Center2D =
  x2 :: real
  y2 :: real
  r2 :: real
  intensity2 :: real

record Center3D =
  x3 :: real
  y3 :: real
  z3 :: real
  r3 :: real
  intensity3 :: real

definition Center3D_of :: "Center2D \<Rightarrow> nat \<Rightarrow> Center3D" where
  "Center3D_of c t =
     \<lparr>x3 = x2 c, y3 = y2 c, z3 = real t, r3 = r2 c, intensity3 = intensity2 c\<rparr>"

type_synonym Frame = "Center2D list"
type_synonym Cluster = "Center3D list"

record Reconstructor =
  clusters :: "Cluster list"
  trajectories :: "TrajIndex option"
  last_frame :: Frame

definition Reconstructor_init :: Reconstructor where
  "Reconstructor_init = \<lparr>clusters = [], trajectories = None, last_frame = []\<rparr>"

text \<open>A bounding box of the planar R*-tree: the two edges, each a pair (first, second).\<close>

type_synonym bbox2 = "(real \<times> real) \<times> (real \<times> real)"

definition get_bb :: "Center2D \<Rightarrow> real \<Rightarrow> bbox2" where
  "get_bb c tolerance =
     ((x2 c - r2 c * tolerance, x2 c + r2 c * tolerance),
      (y2 c - r2 c * tolerance, y2 c + r2 c * tolerance))"

text \<open>
  Modelled from the spec: the R*-tree library is not among the sources. The tree is the
  list of its leaves \<open>(id, box)\<close>; the overlap query returns the ids whose stored boxes
  intersect the query box, each once. The order of the answer is unspecified; the model
  answers in insertion order.
\<close>

type_synonym RTree = "(nat \<times> bbox2) list"

definition overlaps :: "bbox2 \<Rightarrow> bbox2 \<Rightarrow> bool" where
  "overlaps a b =
     (fst (fst a) \<le> snd (fst b) \<and> fst (fst b) \<le> snd (fst a) \<and>
      fst (snd a) \<le> snd (snd b) \<and> fst (snd b) \<le> snd (snd a))"

definition RTree_Insert :: "RTree \<Rightarrow> nat \<Rightarrow> bbox2 \<Rightarrow> RTree" where
  "RTree_Insert tree leaf box = tree @ [(leaf, box)]"

definition RTree_Query :: "RTree \<Rightarrow> bbox2 \<Rightarrow> nat list" where
  "RTree_Query tree box = map fst (filter (\<lambda>e. overlaps box (snd e)) tree)"

definition sqdist2 :: "Center2D \<Rightarrow> Center2D \<Rightarrow> real" where
  "sqdist2 a b = (x2 a - x2 b)\<^sup>2 + (y2 a - y2 b)\<^sup>2"

text \<open>The body of the loop over the previous frame, for its particle \<open>p\<close>.\<close>

definition links_of :: "RTree \<Rightarrow> Frame \<Rightarrow> Frame \<Rightarrow> real \<Rightarrow> nat \<Rightarrow> Link list" where
  "links_of tree last_fr fr tolerance p =
     map (\<lambda>it. \<lparr>first = p, second = it, distance = sqdist2 (last_fr ! p) (fr ! it)\<rparr>)
       (filter (\<lambda>it. sqdist2 (last_fr ! p) (fr ! it) <
                      ((r2 (last_fr ! p) + r2 (fr ! it)) * tolerance)\<^sup>2)
          (RTree_Query tree (get_bb (last_fr ! p) tolerance)))"

definition links_by_RStarTree ::
  "Frame \<Rightarrow> Frame \<Rightarrow> real \<Rightarrow> real list \<times> nat list \<times> nat list" where
  "links_by_RStarTree last_fr fr tolerance =
     (let tree = fold (\<lambda>p tree. RTree_Insert tree p (get_bb (fr ! p) 1)) [0..<length fr] [];
          links = concat (map (links_of tree last_fr fr tolerance) [0..<length last_fr])
      in (map distance links, map first links, map second links))"

definition links_by_brute_force :: "Frame \<Rightarrow> Frame \<Rightarrow> real list \<times> nat list \<times> nat list" where
  "links_by_brute_force last_fr fr =
     (let links = concat (map (\<lambda>f. map (\<lambda>t.
                     \<lparr>first = f, second = t, distance = sqdist2 (last_fr ! f) (fr ! t)\<rparr>)
                   [0..<length fr]) [0..<length last_fr])
      in (map distance links, map first links, map second links))"

text \<open>
  The reference of the specification: the brute-force pairs that pass the distance test
  \<open>d < ((r_p + r_t) * tolerance)\<^sup>2\<close>.
\<close>

definition filter_by_contact ::
  "Frame \<Rightarrow> Frame \<Rightarrow> real \<Rightarrow> real list \<times> nat list \<times> nat list \<Rightarrow>
   real list \<times> nat list \<times> nat list" where
  "filter_by_contact last_fr fr tolerance links =
     (let keep = filter (\<lambda>(d, f, t). d < ((r2 (last_fr ! f) + r2 (fr ! t)) * tolerance)\<^sup>2)
                   (zip (fst links) (zip (fst (snd links)) (snd (snd links))))
      in (map fst keep, map (fst \<circ> snd) keep, map (snd \<circ> snd) keep))"

text \<open>
  The loop of \<open>push_back\<close> over the positions of the new frame: a position whose
  trajectory existed before goes to the cluster of that number, any other position starts
  a cluster.
\<close>

fun update_clusters ::
  "TrajIndex \<Rightarrow> nat \<Rightarrow> nat \<Rightarrow> Frame \<Rightarrow> nat list \<Rightarrow> Cluster list \<Rightarrow> error + Cluster list" where
  "update_clusters ti t old_traj fr [] cls = Inr cls"
| "update_clusters ti t old_traj fr (p # ps) cls =
     (case getTraj ti t p of
        None \<Rightarrow> Inl Undefined
      | Some tr \<Rightarrow>
          if tr < old_traj then
            (if tr < length cls
             then update_clusters ti t old_traj fr ps
                    (cls[tr := cls ! tr @ [Center3D_of (fr ! p) t]])
             else Inl Undefined)
          else update_clusters ti t old_traj fr ps (cls @ [[Center3D_of (fr ! p) t]]))"

definition push_back :: "Reconstructor \<Rightarrow> Frame \<Rightarrow> real \<Rightarrow> error + Reconstructor" where
  "push_back rc fr tolerance =
     (case trajectories rc of
        None \<Rightarrow>
          Inr \<lparr>clusters = clusters rc @ map (\<lambda>c. [Center3D_of c 0]) fr,
               trajectories = Some (TrajIndex_init (length fr)), last_frame = fr\<rparr>
      | Some ti \<Rightarrow>
          (let links = links_by_RStarTree (last_frame rc) fr tolerance;
               t = nbFrames ti;
               old_traj = TrajIndex_size ti
           in case add_Frame ti (length fr) (fst links) (fst (snd links)) (snd (snd links)) of
                Inl e \<Rightarrow> Inl e
              | Inr ti' \<Rightarrow>
                  (case update_clusters ti' t old_traj fr [0..<length fr] (clusters rc) of
                     Inl e \<Rightarrow> Inl e
                   | Inr cls \<Rightarrow>
                       Inr \<lparr>clusters = cls, trajectories = Some ti', last_frame = fr\<rparr>)))"

text \<open>Pushing a sequence of frames, stopping at the first failure.\<close>

fun push_all :: "Reconstructor \<Rightarrow> (Frame \<times> real) list \<Rightarrow> error + Reconstructor" where
  "push_all rc [] = Inr rc"
| "push_all rc (ft # fts) =
     (case push_back rc (fst ft) (snd ft) of
        Inl e \<Rightarrow> Inl e
      | Inr rc' \<Rightarrow> push_all rc' fts)"

text \<open>
  The frames spanned by a trajectory; the cluster that the detections of a trajectory
  make, each with its frame index as third coordinate, given the frames pushed so far;
  and the invariant of the reconstructor between two calls of \<open>push_back\<close>: clusters and
  trajectories correspond by number, the last frame of the index is that of the
  reconstructor, its trajectories are live and pairwise different.
\<close>

definition spanned :: "Traj \<Rightarrow> nat list" where
  "spanned T = [start T..<start T + length (positions T)]"

definition cluster_of :: "Frame list \<Rightarrow> Traj \<Rightarrow> Cluster" where
  "cluster_of frs T =
     map (\<lambda>k. Center3D_of (frs ! (start T + k) ! (positions T ! k)) (start T + k))
       [0..<length (positions T)]"

definition rc_inv :: "Frame list \<Rightarrow> Reconstructor \<Rightarrow> bool" where
  "rc_inv frs rc =
     (case trajectories rc of
        None \<Rightarrow> clusters rc = [] \<and> frs = []
      | Some ti \<Rightarrow>
          length frs = length (pos2tr ti) \<and> pos2tr ti \<noteq> [] \<and> last frs = last_frame rc \<and>
          length (clusters rc) = length (tr2pos ti) \<and>
          (\<forall>tr<length (tr2pos ti). clusters rc ! tr = cluster_of frs (tr2pos ti ! tr)) \<and>
          (\<forall>tr<length (tr2pos ti).
             start (tr2pos ti ! tr) + length (positions (tr2pos ti ! tr)) \<le> length (pos2tr ti)) \<and>
          length (last (pos2tr ti)) = length (last_frame rc) \<and>
          (\<forall>tr\<in>set (last (pos2tr ti)). tr < length (tr2pos ti) \<and>
             start (tr2pos ti ! tr) + length (positions (tr2pos ti ! tr)) =
               length (pos2tr ti)) \<and>
          distinct (last (pos2tr ti)))"

section \<open>Particles (lib/particles.cpp)\<close>

text \<open>
  Coordinates are three doubles, modelled as reals. A bounding box is its three edges,
  each a pair (first, second).
\<close>

type_synonym Coord = "real \<times> real \<times> real"
type_synonym BoundingBox = "(real \<times> real) \<times> (real \<times> real) \<times> (real \<times> real)"

fun dot :: "Coord \<Rightarrow> Coord \<Rightarrow> real" where
  "dot (a0, a1, a2) (b0, b1, b2) = a0 * b0 + a1 * b1 + a2 * b2"

fun minus_Coord :: "Coord \<Rightarrow> Coord \<Rightarrow> Coord" where
  "minus_Coord (a0, a1, a2) (b0, b1, b2) = (a0 - b0, a1 - b1, a2 - b2)"

fun bounds :: "Coord \<Rightarrow> real \<Rightarrow> BoundingBox" where
  "bounds (c0, c1, c2) r = ((c0 - r, c0 + r), (c1 - r, c1 + r), (c2 - r, c2 + r))"

text \<open>
  Modelled from the spec: the spatial index class and \<open>particles.hpp\<close> are not among the
  sources. The index is the list of its leaves \<open>(id, box)\<close>; \<open>insert\<close> adds a leaf, and the
  query for a box returns the ids whose stored box lies in it, each once (the model
  answers in insertion order). A query on a particle set without index is a logic error.
  \<open>getDiff\<close> is the difference of two positions.
\<close>

type_synonym SpatialIndex = "(nat \<times> BoundingBox) list"

record Particles =
  coords :: "Coord list"
  radius :: real
  bb :: BoundingBox
  index :: "SpatialIndex option"
  neighboursList :: "nat list list option"

fun encloses :: "BoundingBox \<Rightarrow> BoundingBox \<Rightarrow> bool" where
  "encloses (a0, a1, a2) (b0, b1, b2) =
     (fst a0 \<le> fst b0 \<and> snd b0 \<le> snd a0 \<and> fst a1 \<le> fst b1 \<and> snd b1 \<le> snd a1 \<and>
      fst a2 \<le> fst b2 \<and> snd b2 \<le> snd a2)"

definition index_insert :: "SpatialIndex \<Rightarrow> nat \<Rightarrow> BoundingBox \<Rightarrow> SpatialIndex" where
  "index_insert idx i b = idx @ [(i, b)]"

definition index_enclosed :: "SpatialIndex \<Rightarrow> BoundingBox \<Rightarrow> nat list" where
  "index_enclosed idx b = map fst (filter (\<lambda>e. encloses b (snd e)) idx)"

definition selectEnclosed :: "Particles \<Rightarrow> BoundingBox \<Rightarrow> error + nat list" where
  "selectEnclosed P b =
     (case index P of None \<Rightarrow> Inl LogicError | Some idx \<Rightarrow> Inr (index_enclosed idx b))"

definition getDiff :: "Particles \<Rightarrow> Coord \<Rightarrow> nat \<Rightarrow> Coord" where
  "getDiff P origin dest = minus_Coord (coords P ! dest) origin"


definition makeRTreeIndex :: "Particles \<Rightarrow> Particles" where
  "makeRTreeIndex P =
     P\<lparr>index := Some (fold (\<lambda>i idx. index_insert idx i (bounds (coords P ! i) 0))
                         [0..<length (coords P)] [])\<rparr>"


definition getEuclidianNeighbours :: "Particles \<Rightarrow> nat \<Rightarrow> real \<Rightarrow> error + nat list" where
  "getEuclidianNeighbours P center rng =
     (if length (coords P) \<le> center then Inl Undefined
      else case selectEnclosed P (bounds (coords P ! center) rng) of
        Inl e \<Rightarrow> Inl e
      | Inr NormOneNeighbours \<Rightarrow>
          if \<exists>q\<in>set NormOneNeighbours. length (coords P) \<le> q then Inl Undefined
          else Inr (filter (\<lambda>q. q \<noteq> center \<and>
                        dot (getDiff P (coords P ! center) q) (getDiff P (coords P ! center) q)
                          < rng * rng)
                      NormOneNeighbours))"



text \<open>The neighbour list from a bond length, in diameters, and from a set of bonds.\<close>

fun collect_neighbours :: "Particles \<Rightarrow> real \<Rightarrow> nat list \<Rightarrow> error + nat list list" where
  "collect_neighbours P sep [] = Inr []"
| "collect_neighbours P sep (p # ps) =
     (case getEuclidianNeighbours P p sep of
        Inl e \<Rightarrow> Inl e
      | Inr ngb \<Rightarrow>
          (case collect_neighbours P sep ps of
             Inl e \<Rightarrow> Inl e
           | Inr rest \<Rightarrow> Inr (ngb # rest)))"

definition makeNgbList :: "Particles \<Rightarrow> real \<Rightarrow> error + Particles" where
  "makeNgbList P bondLength =
     (case collect_neighbours P (2 * bondLength * radius P) [0..<length (coords P)] of
        Inl e \<Rightarrow> Inl e
      | Inr ngb \<Rightarrow> Inr (P\<lparr>neighboursList := Some ngb\<rparr>))"

text \<open>
  Modelled from the spec: the bond class is not among the sources. A bond is an
  unordered pair of indices stored as (low, high); a bond set is visited in its order.
\<close>

type_synonym Bond = "nat \<times> nat"

definition Bond :: "nat \<Rightarrow> nat \<Rightarrow> Bond" where
  "Bond a b = (min a b, max a b)"

definition low :: "Bond \<Rightarrow> nat" where
  "low b = fst b"

definition high :: "Bond \<Rightarrow> nat" where
  "high b = snd b"

fun add_bonds :: "Bond list \<Rightarrow> nat list list \<Rightarrow> error + nat list list" where
  "add_bonds [] ngb = Inr ngb"
| "add_bonds (b # bs) ngb =
     (if length ngb \<le> low b \<or> length ngb \<le> high b then Inl Undefined
      else add_bonds bs
             ((ngb[low b := ngb ! low b @ [high b]])
                [high b := (ngb[low b := ngb ! low b @ [high b]]) ! high b @ [low b]]))"

definition makeNgbList_bonds :: "Particles \<Rightarrow> Bond list \<Rightarrow> error + Particles" where
  "makeNgbList_bonds P bonds =
     (case add_bonds bonds (replicate (length (coords P)) []) of
        Inl e \<Rightarrow> Inl e
      | Inr ngb \<Rightarrow> Inr (P\<lparr>neighboursList := Some ngb\<rparr>))"

section \<open>Topological clusters (lib/particles.cpp)\<close>

text \<open>
  The functions below read the neighbour list only; \<open>ngb\<close> is the value of
  \<open>getNgbList()\<close>. \<open>std::set_intersection\<close> is the merge of two sorted ranges.
  \<open>std::lower_bound\<close> is specified for ranges partitioned by the value, which sorted
  ranges are: it returns the suffix that starts at the first element not below the value.
\<close>

fun set_intersection :: "nat list \<Rightarrow> nat list \<Rightarrow> nat list" where
  "set_intersection [] ys = []"
| "set_intersection (x # xs) [] = []"
| "set_intersection (x # xs) (y # ys) =
     (if x < y then set_intersection xs (y # ys)
      else if y < x then set_intersection (x # xs) ys
      else x # set_intersection xs ys)"

definition lower_bound :: "nat list \<Rightarrow> nat \<Rightarrow> nat list" where
  "lower_bound xs v = dropWhile (\<lambda>x. x < v) xs"

fun ring_loop :: "nat list list \<Rightarrow> nat list \<Rightarrow> nat list \<Rightarrow> error + bool" where
  "ring_loop ngb common [] = Inr True"
| "ring_loop ngb common (c # cs) =
     (if length ngb \<le> c then Inl Undefined
      else if length (set_intersection (ngb ! c) common) \<noteq> 2 then Inr False
      else ring_loop ngb common cs)"

definition is_ring :: "nat list list \<Rightarrow> nat list \<Rightarrow> error + bool" where
  "is_ring ngb common = ring_loop ngb common common"

text \<open>The inner loop of \<open>get1551pairs\<close> over the neighbours \<open>q\<close> of \<open>p\<close>, and the outer loop.\<close>

fun pairs_1551_of :: "nat list list \<Rightarrow> nat \<Rightarrow> nat list \<Rightarrow> error + Bond list" where
  "pairs_1551_of ngb p [] = Inr []"
| "pairs_1551_of ngb p (q # qs) =
     (if length ngb \<le> q then Inl Undefined
      else if length (set_intersection (ngb ! p) (ngb ! q)) \<noteq> 5 then pairs_1551_of ngb p qs
      else case is_ring ngb (set_intersection (ngb ! p) (ngb ! q)) of
             Inl e \<Rightarrow> Inl e
           | Inr ring \<Rightarrow>
               if \<not> ring then pairs_1551_of ngb p qs
               else (case pairs_1551_of ngb p qs of
                       Inl e \<Rightarrow> Inl e
                     | Inr ret \<Rightarrow> Inr (Bond p q # ret)))"

fun pairs_1551_from :: "nat list list \<Rightarrow> nat list \<Rightarrow> error + Bond list" where
  "pairs_1551_from ngb [] = Inr []"
| "pairs_1551_from ngb (p # ps) =
     (case pairs_1551_of ngb p (lower_bound (ngb ! p) (p + 1)) of
        Inl e \<Rightarrow> Inl e
      | Inr ret \<Rightarrow>
          (case pairs_1551_from ngb ps of
             Inl e \<Rightarrow> Inl e
           | Inr rest \<Rightarrow> Inr (ret @ rest)))"

text \<open>The bonds found, in the order of their insertion into the bond set.\<close>

definition get1551pairs :: "nat list list \<Rightarrow> error + Bond list" where
  "get1551pairs ngb = pairs_1551_from ngb [0..<length ngb]"

text \<open>The ring of the specification: every member has exactly two members as neighbours.\<close>

definition forms_ring :: "nat list list \<Rightarrow> nat set \<Rightarrow> bool" where
  "forms_ring ngb S = (\<forall>c\<in>S. card (set (ngb ! c) \<inter> S) = 2)"

section \<open>Bond orientational order (boo_data.hpp, lib/particles.cpp)\<close>

text \<open>
  A coefficient is a \<open>std::complex<double>\<close>: either a finite value, modelled as a complex
  number without rounding, or a value with a NaN or an infinite component, which is what
  the division by a zero count yields. A descriptor holds 36 coefficients, 0 by default.
\<close>

datatype cdouble = Fin complex | NonFinite

fun cd_plus :: "cdouble \<Rightarrow> cdouble \<Rightarrow> cdouble" where
  "cd_plus (Fin a) (Fin b) = Fin (a + b)"
| "cd_plus _ _ = NonFinite"

fun cd_div_count :: "cdouble \<Rightarrow> nat \<Rightarrow> cdouble" where
  "cd_div_count (Fin a) n = (if n = 0 then NonFinite else Fin (a / of_nat n))"
| "cd_div_count NonFinite n = NonFinite"

type_synonym BooData = "cdouble list"

definition BooData_zero :: BooData where
  "BooData_zero = replicate 36 (Fin 0)"

definition boo_plus :: "BooData \<Rightarrow> BooData \<Rightarrow> BooData" where
  "boo_plus a b = map2 cd_plus a b"

definition boo_div :: "BooData \<Rightarrow> nat \<Rightarrow> BooData" where
  "boo_div a n = map (\<lambda>z. cd_div_count z n) a"

text \<open>
  The spherical harmonics of a bond vector are computed by the constructor
  \<open>BooData(rij)\<close>, which is not among the sources: it is the parameter \<open>Y\<close>.
\<close>

definition sphHarm_OneBond :: "(Coord \<Rightarrow> BooData) \<Rightarrow> Particles \<Rightarrow> nat \<Rightarrow> nat \<Rightarrow> BooData" where
  "sphHarm_OneBond Y P center neighbour = Y (getDiff P (coords P ! center) neighbour)"

definition getBOO ::
  "(Coord \<Rightarrow> BooData) \<Rightarrow> Particles \<Rightarrow> nat list list \<Rightarrow> nat \<Rightarrow> error + BooData" where
  "getBOO Y P ngb center =
     (if length ngb \<le> center then Inl Undefined
      else let ngbList = ngb ! center; nb = length ngbList in
        if nb > 0 then
          (if length (coords P) \<le> center \<or> (\<exists>q\<in>set ngbList. length (coords P) \<le> q)
           then Inl Undefined
           else Inr (boo_div
                  (fold (\<lambda>q boo. boo_plus boo (sphHarm_OneBond Y P center q)) ngbList
                     BooData_zero) nb))
        else Inr BooData_zero)"

text \<open>
  \<open>getBOOs\<close>: the traversal of the bonds \<open>(p, q)\<close>, \<open>p < q\<close>, that adds the harmonics of
  each bond to both ends and counts the bonds of each particle, then the division of every
  descriptor by its count. \<open>BOO0\<close> is the vector handed in, resized to the particle set.
\<close>

definition add_bond ::
  "(Coord \<Rightarrow> BooData) \<Rightarrow> Particles \<Rightarrow> nat \<Rightarrow> nat \<Rightarrow> BooData list \<times> nat list \<Rightarrow>
   BooData list \<times> nat list" where
  "add_bond Y P p q s =
     (let spharm = sphHarm_OneBond Y P p q;
          BOO1 = (fst s)[p := boo_plus (fst s ! p) spharm];
          nbs1 = (snd s)[p := snd s ! p + 1]
      in (BOO1[q := boo_plus (BOO1 ! q) spharm], nbs1[q := nbs1 ! q + 1]))"

fun add_bonds_of ::
  "(Coord \<Rightarrow> BooData) \<Rightarrow> Particles \<Rightarrow> nat \<Rightarrow> nat list \<Rightarrow> BooData list \<times> nat list \<Rightarrow>
   error + BooData list \<times> nat list" where
  "add_bonds_of Y P p [] s = Inr s"
| "add_bonds_of Y P p (q # qs) s =
     (if length (coords P) \<le> p \<or> length (coords P) \<le> q then Inl Undefined
      else add_bonds_of Y P p qs (add_bond Y P p q s))"

fun add_bonds_from ::
  "(Coord \<Rightarrow> BooData) \<Rightarrow> Particles \<Rightarrow> nat list list \<Rightarrow> nat list \<Rightarrow>
   BooData list \<times> nat list \<Rightarrow> error + BooData list \<times> nat list" where
  "add_bonds_from Y P ngb [] s = Inr s"
| "add_bonds_from Y P ngb (p # ps) s =
     (case add_bonds_of Y P p (lower_bound (ngb ! p) (p + 1)) s of
        Inl e \<Rightarrow> Inl e
      | Inr s' \<Rightarrow> add_bonds_from Y P ngb ps s')"

definition getBOOs ::
  "(Coord \<Rightarrow> BooData) \<Rightarrow> Particles \<Rightarrow> nat list list \<Rightarrow> BooData list \<Rightarrow>
   error + BooData list" where
  "getBOOs Y P ngb BOO0 =
     (let n = length (coords P);
          BOO = take n BOO0 @ replicate (n - length BOO0) BooData_zero
      in case add_bonds_from Y P ngb [0..<length ngb] (BOO, replicate n 0) of
           Inl e \<Rightarrow> Inl e
         | Inr s \<Rightarrow> Inr (map2 boo_div (fst s) (snd s)))"

text \<open>The guarded division of \<open>getSurfBOOs\<close>, for comparison.\<close>

definition normalize_guarded :: "BooData list \<Rightarrow> nat list \<Rightarrow> BooData list" where
  "normalize_guarded BOO nbs = map2 (\<lambda>b n. if n \<noteq> 0 then boo_div b n else b) BOO nbs"

text \<open>
  The notions of the specification: the squared and the plain Euclidean distance of two
  positions, a particle set whose index holds the leaf \<open>(i, bounds(p\<^sub>i, 0))\<close> for each of
  its positions, and the first-come-first-served selection of \<open>cut\<close>.
\<close>

fun sqdist :: "Coord \<Rightarrow> Coord \<Rightarrow> real" where
  "sqdist (a0, a1, a2) (b0, b1, b2) = (a0 - b0)\<^sup>2 + (a1 - b1)\<^sup>2 + (a2 - b2)\<^sup>2"

definition euclid :: "Coord \<Rightarrow> Coord \<Rightarrow> real" where
  "euclid a b = sqrt (sqdist a b)"

definition indexed :: "Particles \<Rightarrow> bool" where
  "indexed P =
     (index P = Some (map (\<lambda>i. (i, bounds (coords P ! i) 0)) [0..<length (coords P)]))"


section \<open>Auxiliary notions and example inputs\<close>


text \<open>The test that \<open>get1551pairs\<close> applies to a bond, in the words of the specification.\<close>

definition good_1551 :: "nat list list \<Rightarrow> nat \<Rightarrow> nat \<Rightarrow> bool" where
  "good_1551 ngb p q =
     (card (set (ngb ! p) \<inter> set (ngb ! q)) = 5 \<and>
      forms_ring ngb (set (ngb ! p) \<inter> set (ngb ! q)))"

text \<open>Concrete inputs, on which the theorems below are instantiated.\<close>

definition example_center :: "real \<Rightarrow> real \<Rightarrow> real \<Rightarrow> Center2D" where
  "example_center x y r = \<lparr>x2 = x, y2 = y, r2 = r, intensity2 = 1\<rparr>"

definition lone_particle :: Particles where
  "lone_particle =
     \<lparr>coords = [(0, 0, 0)], radius = 1, bb = ((0, 1), (0, 1), (0, 1)), index = None,
      neighboursList = Some [[]]\<rparr>"

definition one_frame :: Reconstructor where
  "one_frame =
     \<lparr>clusters = [[Center3D_of (example_center 0 0 1) 0]],
      trajectories = Some (TrajIndex_init 1), last_frame = [example_center 0 0 1]\<rparr>"

definition example_particles :: Particles where
  "example_particles =
     makeRTreeIndex \<lparr>coords = [(0, 0, 0), (1, 0, 0), (0, 0, 0), (3, 0, 0)], radius = 1 / 2,
                     bb = ((0, 3), (0, 3), (0, 3)), index = None, neighboursList = None\<rparr>"

definition example_ngb :: "nat list list" where
  "example_ngb =
     [[1, 2, 3, 4, 5, 6], [0, 2, 3, 4, 5, 6], [0, 1, 3, 6], [0, 1, 2, 4], [0, 1, 3, 5],
      [0, 1, 4, 6], [0, 1, 2, 5]]"

definition two_frames :: "(Frame \<times> real) list" where
  "two_frames =
     [([example_center 0 0 1, example_center 5 5 1], 1),
      ([example_center 1 0 1, example_center 5 6 1, example_center 10 10 1], 1)]"

definition two_frames_index :: TrajIndex where
  "two_frames_index =
     \<lparr>tr2pos = [\<lparr>start = 0, positions = [0, 0]\<rparr>, \<lparr>start = 0, positions = [1, 1]\<rparr>,
                \<lparr>start = 1, positions = [2]\<rparr>],
      pos2tr = [[0, 1], [0, 1, 2]]\<rparr>"

definition two_frames_pushed :: Reconstructor where
  "two_frames_pushed =
     \<lparr>clusters =
        [[Center3D_of (example_center 0 0 1) 0, Center3D_of (example_center 1 0 1) 1],
         [Center3D_of (example_center 5 5 1) 0, Center3D_of (example_center 5 6 1) 1],
         [Center3D_of (example_center 10 10 1) 1]],
      trajectories = Some two_frames_index,
      last_frame = [example_center 1 0 1, example_center 5 6 1, example_center 10 10 1]\<rparr>"

section \<open>Properties of the trajectory index\<close>

lemma used_update: "i < length bs \<Longrightarrow> used (bs[i := True]) = insert i (used bs)"
  by (auto simp: used_def nth_list_update)

lemma used_replicate: "used (replicate n False) = {}"
  by (simp add: used_def)

lemma link_bonds_greedy:
  assumes "\<forall>b\<in>set bs. first b < length from_used \<and> second b < length to_used"
    and "length prev = length from_used" and "length cur = length to_used"
    and "\<forall>tr\<in>set prev. tr < length trs"
  shows "link_bonds prev bs (from_used, to_used, cur, trs) =
         Inr (apply_links prev (greedy_scan bs (used from_used) (used to_used))
                (from_used, to_used, cur, trs))"
  using assms
proof (induction bs arbitrary: from_used to_used cur trs)
  case Nil
  show ?case by simp
next
  case (Cons b bs)
  have fb: "first b < length from_used" and sb: "second b < length to_used"
    using Cons.prems(1) by simp_all
  have tr: "prev ! first b < length trs"
    using Cons.prems(2,4) fb by (metis nth_mem)
  show ?case
  proof (cases "\<not> from_used ! first b \<and> \<not> to_used ! second b")
    case True
    have acc: "first b \<notin> used from_used \<and> second b \<notin> used to_used"
      using True by (simp add: used_def)
    have "link_bonds prev bs
            (from_used[first b := True], to_used[second b := True],
             cur[second b := prev ! first b],
             trs[prev ! first b := Traj_push_back (trs ! (prev ! first b)) (second b)]) =
          Inr (apply_links prev
                 (greedy_scan bs (used (from_used[first b := True]))
                    (used (to_used[second b := True])))
                 (from_used[first b := True], to_used[second b := True],
                  cur[second b := prev ! first b],
                  trs[prev ! first b := Traj_push_back (trs ! (prev ! first b)) (second b)]))"
      using Cons.prems by (intro Cons.IH) simp_all
    then show ?thesis
      using True acc fb sb tr Cons.prems(2,3) by (simp add: used_update Let_def)
  next
    case False
    have nacc: "\<not> (first b \<notin> used from_used \<and> second b \<notin> used to_used)"
      using False fb sb by (simp add: used_def)
    have "link_bonds prev bs (from_used, to_used, cur, trs) =
          Inr (apply_links prev (greedy_scan bs (used from_used) (used to_used))
                 (from_used, to_used, cur, trs))"
      using Cons.prems by (intro Cons.IH) simp_all
    then show ?thesis
      using False nacc fb sb by auto
  qed
qed

lemma greedy_scan_subset: "set (greedy_scan bs F T) \<subseteq> set bs"
  by (induction bs arbitrary: F T) auto

lemma greedy_scan_fresh:
  "b \<in> set (greedy_scan bs F T) \<Longrightarrow> first b \<notin> F \<and> second b \<notin> T"
  by (induction bs arbitrary: F T) (auto split: if_splits)

lemma greedy_scan_distinct_first: "distinct (map first (greedy_scan bs F T))"
  by (induction bs arbitrary: F T) (auto dest: greedy_scan_fresh)

lemma greedy_scan_distinct_second: "distinct (map second (greedy_scan bs F T))"
  by (induction bs arbitrary: F T) (auto dest: greedy_scan_fresh)

lemma greedy_scan_hd: "bs \<noteq> [] \<Longrightarrow> hd bs \<in> set (greedy_scan bs {} {})"
  by (cases bs) simp_all

lemma apply_links_length:
  "apply_links prev acc (fu, tu, cur, trs) = (fu', tu', cur', trs') \<Longrightarrow>
   length fu' = length fu \<and> length tu' = length tu \<and> length cur' = length cur \<and>
   length trs' = length trs"
  by (induction acc arbitrary: fu tu cur trs) auto

lemma apply_links_to_used:
  "apply_links prev acc (fu, tu, cur, trs) = (fu', tu', cur', trs') \<Longrightarrow>
   \<forall>b\<in>set acc. second b < length tu \<Longrightarrow> j < length tu \<Longrightarrow>
   tu' ! j = (tu ! j \<or> j \<in> second ` set acc)"
proof (induction acc arbitrary: fu tu cur trs)
  case Nil
  then show ?case by simp
next
  case (Cons b acc)
  have "tu' ! j = (tu[second b := True] ! j \<or> j \<in> second ` set acc)"
    using Cons.prems by (intro Cons.IH[where tu = "tu[second b := True]"]) auto
  then show ?case
    using Cons.prems(2,3) by (auto simp: nth_list_update)
qed

lemma apply_links_cur_other:
  "apply_links prev acc (fu, tu, cur, trs) = (fu', tu', cur', trs') \<Longrightarrow>
   j \<notin> second ` set acc \<Longrightarrow> cur' ! j = cur ! j"
proof (induction acc arbitrary: fu tu cur trs)
  case Nil
  then show ?case by simp
next
  case (Cons b acc)
  have "cur' ! j = cur[second b := prev ! first b] ! j"
    using Cons.prems by (intro Cons.IH[where cur = "cur[second b := prev ! first b]"]) auto
  then show ?case
    using Cons.prems(2) by auto
qed

lemma apply_links_cur_linked:
  "apply_links prev acc (fu, tu, cur, trs) = (fu', tu', cur', trs') \<Longrightarrow>
   distinct (map second acc) \<Longrightarrow> \<forall>b\<in>set acc. second b < length cur \<Longrightarrow>
   b \<in> set acc \<Longrightarrow> cur' ! second b = prev ! first b"
proof (induction acc arbitrary: fu tu cur trs)
  case Nil
  then show ?case by simp
next
  case (Cons a acc)
  show ?case
  proof (cases "b \<in> set acc")
    case True
    show ?thesis
      using Cons.prems True
      by (intro Cons.IH[where cur = "cur[second a := prev ! first a]"]) auto
  next
    case False
    then have ba: "b = a" using Cons.prems(4) by simp
    have "second a \<notin> second ` set acc"
      using Cons.prems(2) by auto
    then have "cur' ! second a = cur[second a := prev ! first a] ! second a"
      using Cons.prems(1) apply_links_cur_other by auto
    then show ?thesis
      using ba Cons.prems(3) by simp
  qed
qed

lemma apply_links_trs:
  "apply_links prev acc (fu, tu, cur, trs) = (fu', tu', cur', trs') \<Longrightarrow>
   \<forall>b\<in>set acc. prev ! first b < length trs \<Longrightarrow> tr < length trs \<Longrightarrow>
   trs' ! tr = (trs ! tr)\<lparr>positions := positions (trs ! tr) @
                   map second (filter (\<lambda>b. prev ! first b = tr) acc)\<rparr>"
proof (induction acc arbitrary: fu tu cur trs)
  case Nil
  then show ?case by simp
next
  case (Cons a acc)
  let ?trs = "trs[prev ! first a := Traj_push_back (trs ! (prev ! first a)) (second a)]"
  have "trs' ! tr = (?trs ! tr)\<lparr>positions := positions (?trs ! tr) @
                   map second (filter (\<lambda>b. prev ! first b = tr) acc)\<rparr>"
    using Cons.prems by (intro Cons.IH[where trs = ?trs]) auto
  then show ?case
    using Cons.prems(2,3) by (auto simp: nth_list_update Traj_push_back_def)
qed

lemma start_traj_fold:
  assumes "k \<le> length tu" and "length cur = length tu"
  shows "\<exists>cur'. fold (start_traj t tu) [0..<k] (cur, trs) =
           (cur', trs @ map (new_Traj t) (filter (\<lambda>p. \<not> tu ! p) [0..<k])) \<and>
         length cur' = length cur \<and>
         (\<forall>p<length cur. cur' ! p =
            (if p < k \<and> \<not> tu ! p
             then length trs + length (filter (\<lambda>q. \<not> tu ! q) [0..<p]) else cur ! p))"
  using assms(1)
proof (induction k)
  case 0
  show ?case by simp
next
  case (Suc k)
  then obtain cur' where
    f: "fold (start_traj t tu) [0..<k] (cur, trs) =
          (cur', trs @ map (new_Traj t) (filter (\<lambda>p. \<not> tu ! p) [0..<k]))"
    and l: "length cur' = length cur"
    and c: "\<forall>p<length cur. cur' ! p =
            (if p < k \<and> \<not> tu ! p
             then length trs + length (filter (\<lambda>q. \<not> tu ! q) [0..<p]) else cur ! p)"
    by auto
  show ?case
  proof (cases "tu ! k")
    case True
    have "fold (start_traj t tu) [0..<Suc k] (cur, trs) =
          (cur', trs @ map (new_Traj t) (filter (\<lambda>p. \<not> tu ! p) [0..<Suc k]))"
      using f True by (simp add: start_traj_def)
    moreover have "\<forall>p<length cur. cur' ! p =
            (if p < Suc k \<and> \<not> tu ! p
             then length trs + length (filter (\<lambda>q. \<not> tu ! q) [0..<p]) else cur ! p)"
      using c True by (auto simp: less_Suc_eq)
    ultimately show ?thesis using l by blast
  next
    case False
    let ?n = "length (trs @ map (new_Traj t) (filter (\<lambda>p. \<not> tu ! p) [0..<k]))"
    have "fold (start_traj t tu) [0..<Suc k] (cur, trs) =
          (cur'[k := ?n], trs @ map (new_Traj t) (filter (\<lambda>p. \<not> tu ! p) [0..<Suc k]))"
      using f False by (simp add: start_traj_def)
    moreover have "\<forall>p<length cur. cur'[k := ?n] ! p =
            (if p < Suc k \<and> \<not> tu ! p
             then length trs + length (filter (\<lambda>q. \<not> tu ! q) [0..<p]) else cur ! p)"
    proof (intro allI impI)
      fix p assume p: "p < length cur"
      show "cur'[k := ?n] ! p =
            (if p < Suc k \<and> \<not> tu ! p
             then length trs + length (filter (\<lambda>q. \<not> tu ! q) [0..<p]) else cur ! p)"
      proof (cases "p = k")
        case True
        then show ?thesis using False l p by simp
      next
        case ne: False
        then have "cur'[k := ?n] ! p = cur' ! p" by simp
        then show ?thesis using c p ne by (auto simp: less_Suc_eq)
      qed
    qed
    ultimately show ?thesis using l by (intro exI[of _ "cur'[k := ?n]"]) simp
  qed
qed

lemma max_element_Max: "xs \<noteq> [] \<Longrightarrow> max_element xs = Some (Max (set xs))"
  by (cases xs) (simp_all add: Max.set_eq_fold[symmetric])

lemma max_element_bound: "max_element xs = Some m \<Longrightarrow> x \<in> set xs \<Longrightarrow> x \<le> m"
  using max_element_Max[of xs] by (cases "xs = []") auto

lemma max_element_mem: "max_element xs = Some m \<Longrightarrow> m \<in> set xs"
  using max_element_Max[of xs] Max_in[of "set xs"] by (cases "xs = []") auto

lemma max_element_Some: "xs \<noteq> [] \<Longrightarrow> \<exists>m. max_element xs = Some m"
  by (cases xs) simp_all

lemma make_bonds_range:
  assumes "length distances = length p_from" and "length p_from = length p_to"
    and "b \<in> set (make_bonds distances p_from p_to)"
  shows "first b \<in> set p_from \<and> second b \<in> set p_to"
  using assms by (auto simp: make_bonds_def)

lemma add_Frame_result:
  assumes len: "length distances = length p_from" "length p_from = length p_to"
    and ne: "p_to \<noteq> []"
    and to: "\<forall>t\<in>set p_to. t < frame_size"
    and fr: "\<forall>f\<in>set p_from. f < length (last (pos2tr ti))"
    and wf: "pos2tr ti \<noteq> []" "\<forall>tr\<in>set (last (pos2tr ti)). tr < length (tr2pos ti)"
  shows "\<exists>cur' trs'.
    add_Frame ti frame_size distances p_from p_to =
      Inr \<lparr>tr2pos = trs' @ map (new_Traj (length (pos2tr ti)))
               (filter (\<lambda>p. p \<notin> second ` set (accepted_links distances p_from p_to))
                  [0..<frame_size]),
           pos2tr = pos2tr ti @ [cur']\<rparr> \<and>
    length trs' = length (tr2pos ti) \<and> length cur' = frame_size \<and>
    (\<forall>tr<length (tr2pos ti). trs' ! tr =
       (tr2pos ti ! tr)\<lparr>positions := positions (tr2pos ti ! tr) @
          map second (filter (\<lambda>b. last (pos2tr ti) ! first b = tr)
                        (accepted_links distances p_from p_to))\<rparr>) \<and>
    (\<forall>b\<in>set (accepted_links distances p_from p_to).
       cur' ! second b = last (pos2tr ti) ! first b) \<and>
    (\<forall>p<frame_size. p \<notin> second ` set (accepted_links distances p_from p_to) \<longrightarrow>
       cur' ! p = length (tr2pos ti) +
         length (filter (\<lambda>q. q \<notin> second ` set (accepted_links distances p_from p_to))
                   [0..<p]))"
proof -
  let ?prev = "last (pos2tr ti)"
  let ?bonds = "sort_key distance (make_bonds distances p_from p_to)"
  let ?acc = "accepted_links distances p_from p_to"
  let ?s0 = "(replicate (length ?prev) False, replicate frame_size False,
              replicate frame_size (0::nat), tr2pos ti)"
  have acc: "?acc = greedy_scan ?bonds {} {}"
    by (simp add: accepted_links_def)
  have rng: "\<forall>b\<in>set ?bonds. first b < length ?prev \<and> second b < frame_size"
    using make_bonds_range[OF len] to fr by fastforce
  have accrng: "\<forall>b\<in>set ?acc. first b < length ?prev \<and> second b < frame_size"
    using rng greedy_scan_subset[of ?bonds "{}" "{}"] acc by auto
  have lb: "link_bonds ?prev ?bonds ?s0 = Inr (apply_links ?prev ?acc ?s0)"
    using link_bonds_greedy[of ?bonds "replicate (length ?prev) False"
        "replicate frame_size False" ?prev "replicate frame_size 0" "tr2pos ti"] rng wf(2)
    by (simp add: used_replicate acc)
  obtain fu tu cur1 trs' where al: "apply_links ?prev ?acc ?s0 = (fu, tu, cur1, trs')"
    by (metis prod_cases4)
  have lens: "length tu = frame_size" "length cur1 = frame_size"
    "length trs' = length (tr2pos ti)"
    using apply_links_length[OF al] by simp_all
  have tu: "\<forall>j<frame_size. tu ! j = (j \<in> second ` set ?acc)"
    using apply_links_to_used[OF al] accrng by simp
  have flt: "filter (\<lambda>p. \<not> tu ! p) [0..<k] = filter (\<lambda>p. p \<notin> second ` set ?acc) [0..<k]"
    if "k \<le> frame_size" for k
    using that tu by (intro filter_cong) auto
  obtain cur' where
    fo: "fold (start_traj (length (pos2tr ti)) tu) [0..<frame_size] (cur1, trs') =
           (cur', trs' @ map (new_Traj (length (pos2tr ti)))
                           (filter (\<lambda>p. \<not> tu ! p) [0..<frame_size]))"
    and lc: "length cur' = length cur1"
    and cc: "\<forall>p<length cur1. cur' ! p =
            (if p < frame_size \<and> \<not> tu ! p
             then length trs' + length (filter (\<lambda>q. \<not> tu ! q) [0..<p]) else cur1 ! p)"
    using start_traj_fold[of frame_size tu cur1 "length (pos2tr ti)" trs'] lens by auto
  obtain m where m: "max_element p_to = Some m"
    using max_element_Some[OF ne] by blast
  have mlt: "m < frame_size"
    using max_element_mem[OF m] to by simp
  have res: "add_Frame ti frame_size distances p_from p_to =
      Inr \<lparr>tr2pos = trs' @ map (new_Traj (length (pos2tr ti)))
               (filter (\<lambda>p. p \<notin> second ` set ?acc) [0..<frame_size]),
           pos2tr = pos2tr ti @ [cur']\<rparr>"
    using len m mlt wf(1) lb al fo lens flt[of frame_size]
    by (simp add: add_Frame_def Let_def)
  have t1: "\<forall>tr<length (tr2pos ti). trs' ! tr =
       (tr2pos ti ! tr)\<lparr>positions := positions (tr2pos ti ! tr) @
          map second (filter (\<lambda>b. ?prev ! first b = tr) ?acc)\<rparr>"
  proof (intro allI impI)
    fix tr assume "tr < length (tr2pos ti)"
    moreover have "\<forall>b\<in>set ?acc. ?prev ! first b < length (tr2pos ti)"
      using accrng wf(2) by (metis nth_mem)
    ultimately show "trs' ! tr =
       (tr2pos ti ! tr)\<lparr>positions := positions (tr2pos ti ! tr) @
          map second (filter (\<lambda>b. ?prev ! first b = tr) ?acc)\<rparr>"
      using apply_links_trs[OF al] by blast
  qed
  have t2: "\<forall>b\<in>set ?acc. cur' ! second b = ?prev ! first b"
  proof
    fix b assume b: "b \<in> set ?acc"
    have "distinct (map second ?acc)"
      unfolding acc by (rule greedy_scan_distinct_second)
    then have "cur1 ! second b = ?prev ! first b"
      using apply_links_cur_linked[OF al] accrng b by simp
    moreover have "second b < frame_size" "tu ! second b"
      using accrng b tu by auto
    ultimately show "cur' ! second b = ?prev ! first b"
      using cc lens by simp
  qed
  have t3: "\<forall>p<frame_size. p \<notin> second ` set ?acc \<longrightarrow>
       cur' ! p = length (tr2pos ti) +
         length (filter (\<lambda>q. q \<notin> second ` set ?acc) [0..<p])"
    using cc lens tu flt by simp
  have lc': "length cur' = frame_size"
    using lc lens by simp
  show ?thesis
    by (intro exI[of _ cur'] exI[of _ trs'] conjI res lens(3) lc' t1 t2 t3)
qed

lemma sort_key_hd_min:
  assumes "b \<in> set bs"
  shows "distance (hd (sort_key distance bs)) \<le> distance b"
proof -
  have s: "sorted (map distance (sort_key distance bs))"
    by (rule sorted_sort_key)
  have m: "b \<in> set (sort_key distance bs)"
    using assms by simp
  show ?thesis
  proof (cases "sort_key distance bs")
    case Nil
    then show ?thesis using m by simp
  next
    case (Cons x xs)
    then show ?thesis using s m by auto
  qed
qed

lemma sort_key_hd_mem: "bs \<noteq> [] \<Longrightarrow> hd (sort_key distance bs) \<in> set bs"
proof -
  assume "bs \<noteq> []"
  then have "set (sort_key distance bs) \<noteq> {}" by simp
  then have "sort_key distance bs \<noteq> []" by (metis set_empty)
  then have "hd (sort_key distance bs) \<in> set (sort_key distance bs)" by (rule hd_in_set)
  then show ?thesis by simp
qed

text \<open>
  C1. On every call that passes the argument checks and indexes in range, \<open>add_Frame\<close>
  returns the index determined by the accepted links, where the accepted links are those
  of the greedy scan of the candidates sorted by ascending distance: every old trajectory
  is extended by the \<open>to\<close> positions of the accepted links whose \<open>from\<close> position it
  owned in the previous frame, and the new frame maps the \<open>to\<close> position of an accepted
  link to that trajectory. A shortest candidate is always accepted, and a candidate
  strictly shorter than every other one is accepted.
\<close>

theorem add_Frame_greedy:
  assumes "length distances = length p_from" and "length p_from = length p_to"
    and "p_to \<noteq> []"
    and "\<forall>t\<in>set p_to. t < frame_size"
    and "\<forall>f\<in>set p_from. f < length (last (pos2tr ti))"
    and "pos2tr ti \<noteq> []" and "\<forall>tr\<in>set (last (pos2tr ti)). tr < length (tr2pos ti)"
  shows "\<exists>ti'. add_Frame ti frame_size distances p_from p_to = Inr ti' \<and>
    (\<forall>tr<length (tr2pos ti). tr2pos ti' ! tr =
       (tr2pos ti ! tr)\<lparr>positions := positions (tr2pos ti ! tr) @
          map second (filter (\<lambda>b. last (pos2tr ti) ! first b = tr)
                        (accepted_links distances p_from p_to))\<rparr>) \<and>
    (\<forall>b\<in>set (accepted_links distances p_from p_to).
       last (pos2tr ti') ! second b = last (pos2tr ti) ! first b) \<and>
    (\<exists>b\<in>set (accepted_links distances p_from p_to).
       \<forall>c\<in>set (make_bonds distances p_from p_to). distance b \<le> distance c) \<and>
    (\<forall>b\<in>set (make_bonds distances p_from p_to).
       (\<forall>c\<in>set (make_bonds distances p_from p_to). c \<noteq> b \<longrightarrow> distance b < distance c) \<longrightarrow>
       b \<in> set (accepted_links distances p_from p_to))"
proof -
  let ?bs = "make_bonds distances p_from p_to"
  let ?acc = "accepted_links distances p_from p_to"
  let ?h = "hd (sort_key distance ?bs)"
  obtain cur' trs' where
    r: "add_Frame ti frame_size distances p_from p_to =
      Inr \<lparr>tr2pos = trs' @ map (new_Traj (length (pos2tr ti)))
               (filter (\<lambda>p. p \<notin> second ` set ?acc) [0..<frame_size]),
           pos2tr = pos2tr ti @ [cur']\<rparr>"
    and l: "length trs' = length (tr2pos ti)"
    and t: "\<forall>tr<length (tr2pos ti). trs' ! tr =
       (tr2pos ti ! tr)\<lparr>positions := positions (tr2pos ti ! tr) @
          map second (filter (\<lambda>b. last (pos2tr ti) ! first b = tr) ?acc)\<rparr>"
    and c: "\<forall>b\<in>set ?acc. cur' ! second b = last (pos2tr ti) ! first b"
    using add_Frame_result[OF assms] by blast
  have ne: "?bs \<noteq> []"
    using assms(1,2,3) by (simp add: make_bonds_def)
  have hacc: "?h \<in> set ?acc"
    using ne greedy_scan_hd[of "sort_key distance ?bs"]
    by (metis accepted_links_def set_empty set_sort)
  have hmin: "\<forall>c\<in>set ?bs. distance ?h \<le> distance c"
    using sort_key_hd_min by blast
  have uniq: "b \<in> set ?acc"
    if b: "b \<in> set ?bs" and m: "\<forall>c\<in>set ?bs. c \<noteq> b \<longrightarrow> distance b < distance c" for b
  proof -
    have "?h \<in> set ?bs" using ne by (rule sort_key_hd_mem)
    moreover have "distance ?h \<le> distance b" using hmin b by blast
    ultimately have "?h = b" using m by fastforce
    then show ?thesis using hacc by simp
  qed
  let ?ti' = "\<lparr>tr2pos = trs' @ map (new_Traj (length (pos2tr ti)))
               (filter (\<lambda>p. p \<notin> second ` set ?acc) [0..<frame_size]),
           pos2tr = pos2tr ti @ [cur']\<rparr>"
  have "\<forall>tr<length (tr2pos ti). tr2pos ?ti' ! tr =
       (tr2pos ti ! tr)\<lparr>positions := positions (tr2pos ti ! tr) @
          map second (filter (\<lambda>b. last (pos2tr ti) ! first b = tr) ?acc)\<rparr>"
    using t l by (simp add: nth_append)
  moreover have "\<forall>b\<in>set ?acc. last (pos2tr ?ti') ! second b = last (pos2tr ti) ! first b"
    using c by simp
  moreover have "\<exists>b\<in>set ?acc. \<forall>c\<in>set ?bs. distance b \<le> distance c"
    using hacc hmin by blast
  moreover have "\<forall>b\<in>set ?bs.
       (\<forall>c\<in>set ?bs. c \<noteq> b \<longrightarrow> distance b < distance c) \<longrightarrow> b \<in> set ?acc"
    using uniq by blast
  ultimately show ?thesis
    using r by blast
qed

theorem add_Frame_greedy_witness:
  "length [1/10, 1/20, 2/10, 3/10 :: real] = length [0, 0, 1, 1 :: nat] \<and>
   length [0, 0, 1, 1 :: nat] = length [0, 1, 1, 0 :: nat] \<and>
   [0, 1, 1, 0 :: nat] \<noteq> [] \<and> pos2tr (TrajIndex_init 2) \<noteq> [] \<and>
   add_Frame (TrajIndex_init 2) 3 [1/10, 1/20, 2/10, 3/10] [0, 0, 1, 1] [0, 1, 1, 0] =
     Inr \<lparr>tr2pos = [\<lparr>start = 0, positions = [0, 1]\<rparr>, \<lparr>start = 0, positions = [1, 0]\<rparr>,
                    \<lparr>start = 1, positions = [2]\<rparr>],
          pos2tr = [[0, 1], [1, 0, 2]]\<rparr> \<and>
   accepted_links [1/10, 1/20, 2/10, 3/10] [0, 0, 1, 1] [0, 1, 1, 0] =
     [\<lparr>first = 0, second = 1, distance = 1/20\<rparr>, \<lparr>first = 1, second = 0, distance = 3/10\<rparr>] \<and>
   (\<exists>b\<in>set (accepted_links [1/10, 1/20, 2/10, 3/10] [0, 0, 1, 1] [0, 1, 1, 0]).
      \<forall>c\<in>set (make_bonds [1/10, 1/20, 2/10, 3/10] [0, 0, 1, 1] [0, 1, 1, 0]).
        distance b \<le> distance c)"
proof -
  let ?ti = "TrajIndex_init 2"
  let ?d = "[1/10, 1/20, 2/10, 3/10] :: real list"
  let ?f = "[0, 0, 1, 1] :: nat list"
  let ?t = "[0, 1, 1, 0] :: nat list"
  have h1: "length ?d = length ?f" by simp
  have h2: "length ?f = length ?t" by simp
  have h3: "?t \<noteq> []" by simp
  have h4: "\<forall>t\<in>set ?t. t < 3" by simp
  have h5: "\<forall>f\<in>set ?f. f < length (last (pos2tr ?ti))"
    by (simp add: TrajIndex_init_def)
  have h6: "pos2tr ?ti \<noteq> []" by (simp add: TrajIndex_init_def)
  have h7: "\<forall>tr\<in>set (last (pos2tr ?ti)). tr < length (tr2pos ?ti)"
    by (simp add: TrajIndex_init_def)
  have e1: "add_Frame ?ti 3 ?d ?f ?t =
     Inr \<lparr>tr2pos = [\<lparr>start = 0, positions = [0, 1]\<rparr>, \<lparr>start = 0, positions = [1, 0]\<rparr>,
                    \<lparr>start = 1, positions = [2]\<rparr>],
          pos2tr = [[0, 1], [1, 0, 2]]\<rparr>"
    by code_simp
  have e2: "accepted_links ?d ?f ?t =
     [\<lparr>first = 0, second = 1, distance = 1/20\<rparr>, \<lparr>first = 1, second = 0, distance = 3/10\<rparr>]"
    by code_simp
  have "\<exists>b\<in>set (accepted_links ?d ?f ?t). \<forall>c\<in>set (make_bonds ?d ?f ?t). distance b \<le> distance c"
    using add_Frame_greedy[OF h1 h2 h3 h4 h5 h6 h7] by blast
  then show ?thesis
    using h1 h2 h3 h6 e1 e2 by blast
qed

lemma add_Frame_sizes_differ:
  "length distances \<noteq> length p_from \<or> length p_from \<noteq> length p_to \<Longrightarrow>
   add_Frame ti frame_size distances p_from p_to = Inl InvalidArgument"
  by (simp add: add_Frame_def)

lemma add_Frame_to_too_large:
  assumes "length distances = length p_from" and "length p_from = length p_to"
    and "t \<in> set p_to" and "frame_size \<le> t"
  shows "add_Frame ti frame_size distances p_from p_to = Inl InvalidArgument"
proof -
  have "p_to \<noteq> []" using assms(3) by auto
  then obtain m where m: "max_element p_to = Some m"
    using max_element_Some by blast
  then have "frame_size \<le> m"
    using max_element_bound[OF m assms(3)] assms(4) by simp
  then show ?thesis
    using assms(1,2) m by (simp add: add_Frame_def)
qed

lemma add_Frame_no_links:
  "length distances = length p_from \<Longrightarrow> length p_from = length p_to \<Longrightarrow> p_to = [] \<Longrightarrow>
   add_Frame ti frame_size distances p_from p_to = Inl Undefined"
  by (simp add: add_Frame_def)

text \<open>
  C4. The two argument checks are as specified, but the second one reads the maximum of
  \<open>to\<close> without a guard: with three empty arrays, which are of equal length and hold no
  position beyond the new frame, \<open>add_Frame\<close> dereferences the end iterator instead of
  completing.
\<close>

theorem add_Frame_empty_arrays_undefined:
  "add_Frame (TrajIndex_init 1) 1 [] [] [] = Inl Undefined"
  by (simp add: add_Frame_def)

theorem add_Frame_empty_arrays_undefined_witness:
  "add_Frame (TrajIndex_init 1) 1 [] [] [] \<noteq> Inl InvalidArgument \<and>
   (\<nexists>ti'. add_Frame (TrajIndex_init 1) 1 [] [] [] = Inr ti')"
  using add_Frame_empty_arrays_undefined by simp

text \<open>
  C9. With arrays of equal length and \<open>from\<close> positions inside the previous frame,
  \<open>add_Frame\<close> is undefined exactly when the arrays are empty; and \<open>push_back\<close> on a
  reconstructor that holds a frame hands it empty arrays, and so is undefined, whenever
  the link search returns no pair.
\<close>

theorem add_Frame_needs_links:
  "(length distances = length p_from \<and> length p_from = length p_to \<and>
    (\<forall>f\<in>set p_from. f < length (last (pos2tr ti))) \<and> pos2tr ti \<noteq> [] \<and>
    (\<forall>tr\<in>set (last (pos2tr ti)). tr < length (tr2pos ti)) \<longrightarrow>
    (add_Frame ti frame_size distances p_from p_to = Inl Undefined) = (p_to = [])) \<and>
   (trajectories rc = Some ti \<and> links_by_RStarTree (last_frame rc) fr tolerance = ([], [], []) \<longrightarrow>
    push_back rc fr tolerance = Inl Undefined)"
proof (intro conjI impI)
  assume a: "length distances = length p_from \<and> length p_from = length p_to \<and>
    (\<forall>f\<in>set p_from. f < length (last (pos2tr ti))) \<and> pos2tr ti \<noteq> [] \<and>
    (\<forall>tr\<in>set (last (pos2tr ti)). tr < length (tr2pos ti))"
  show "(add_Frame ti frame_size distances p_from p_to = Inl Undefined) = (p_to = [])"
  proof (cases "p_to = []")
    case True
    then have "add_Frame ti frame_size distances p_from p_to = Inl Undefined"
      using a by (intro add_Frame_no_links) simp_all
    then show ?thesis using True by simp
  next
    case ne: False
    show ?thesis
    proof (cases "\<forall>t\<in>set p_to. t < frame_size")
      case True
      then have "\<exists>ti'. add_Frame ti frame_size distances p_from p_to = Inr ti'"
        using add_Frame_result[of distances p_from p_to frame_size ti] a ne by blast
      then show ?thesis using ne by auto
    next
      case False
      then obtain t where "t \<in> set p_to" "frame_size \<le> t"
        by (meson not_le)
      then have "add_Frame ti frame_size distances p_from p_to = Inl InvalidArgument"
        using add_Frame_to_too_large a by blast
      then show ?thesis using ne by simp
    qed
  qed
next
  assume "trajectories rc = Some ti \<and>
    links_by_RStarTree (last_frame rc) fr tolerance = ([], [], [])"
  then show "push_back rc fr tolerance = Inl Undefined"
    by (simp add: push_back_def add_Frame_no_links)
qed

theorem add_Frame_needs_links_witness:
  "push_back Reconstructor_init [example_center 0 0 1] 1 = Inr one_frame \<and>
   links_by_RStarTree (last_frame one_frame) [example_center 10 0 1] 1 = ([], [], []) \<and>
   push_back one_frame [example_center 10 0 1] 1 = Inl Undefined \<and>
   add_Frame (TrajIndex_init 1) 1 [] [] [] = Inl Undefined \<and>
   add_Frame (TrajIndex_init 1) 1 [1] [0] [0] \<noteq> Inl Undefined"
proof -
  have p: "push_back Reconstructor_init [example_center 0 0 1] 1 = Inr one_frame"
    by (simp add: push_back_def Reconstructor_init_def one_frame_def)
  have t: "trajectories one_frame = Some (TrajIndex_init 1)"
    by (simp add: one_frame_def)
  have l: "links_by_RStarTree (last_frame one_frame) [example_center 10 0 1] 1 = ([], [], [])"
    by code_simp
  have w: "pos2tr (TrajIndex_init 1) \<noteq> []"
    "\<forall>tr\<in>set (last (pos2tr (TrajIndex_init 1))). tr < length (tr2pos (TrajIndex_init 1))"
    by (simp_all add: TrajIndex_init_def)
  have f: "\<forall>f\<in>set [0::nat]. f < length (last (pos2tr (TrajIndex_init 1)))"
    by (simp add: TrajIndex_init_def)
  have "push_back one_frame [example_center 10 0 1] 1 = Inl Undefined"
    using add_Frame_needs_links[of _ _ _ "TrajIndex_init 1" _ one_frame
        "[example_center 10 0 1]" 1] t l by blast
  moreover have "add_Frame (TrajIndex_init 1) 1 [] [] [] = Inl Undefined"
    using add_Frame_needs_links[of "[]" "[]" "[]" "TrajIndex_init 1" 1] w by simp
  moreover have "add_Frame (TrajIndex_init 1) 1 [1] [0] [0] \<noteq> Inl Undefined"
    using add_Frame_needs_links[of "[1]" "[0]" "[0]" "TrajIndex_init 1" 1] w f by simp
  ultimately show ?thesis
    using p l by blast
qed

section \<open>Properties of the link search\<close>

lemma RTree_fold_Insert:
  "fold (\<lambda>p tree. RTree_Insert tree p (g p)) ps acc = acc @ map (\<lambda>p. (p, g p)) ps"
  by (induction ps arbitrary: acc) (simp_all add: RTree_Insert_def)

lemma RTree_Query_map:
  "RTree_Query (map (\<lambda>p. (p, g p)) ps) box = filter (\<lambda>p. overlaps box (g p)) ps"
  by (induction ps) (simp_all add: RTree_Query_def)

lemma contact_imp_overlaps:
  assumes d: "sqdist2 a b < ((r2 a + r2 b) * tolerance)\<^sup>2"
    and t: "0 \<le> tolerance" "tolerance \<le> 1" and r: "0 \<le> r2 a" "0 \<le> r2 b"
  shows "overlaps (get_bb a tolerance) (get_bb b 1)"
proof -
  let ?R = "(r2 a + r2 b) * tolerance"
  have R: "0 \<le> ?R" using t r by simp
  have le: "?R \<le> r2 a * tolerance + r2 b"
    using t r by (simp add: distrib_right mult_left_le)
  have "(x2 a - x2 b)\<^sup>2 \<le> sqdist2 a b" "(y2 a - y2 b)\<^sup>2 \<le> sqdist2 a b"
    by (simp_all add: sqdist2_def)
  then have "\<bar>x2 a - x2 b\<bar>\<^sup>2 < ?R\<^sup>2" "\<bar>y2 a - y2 b\<bar>\<^sup>2 < ?R\<^sup>2"
    using d by simp_all
  then have "\<bar>x2 a - x2 b\<bar> < ?R" "\<bar>y2 a - y2 b\<bar> < ?R"
    using R by (auto intro: power2_less_imp_less)
  then have "\<bar>x2 a - x2 b\<bar> \<le> r2 a * tolerance + r2 b"
    "\<bar>y2 a - y2 b\<bar> \<le> r2 a * tolerance + r2 b"
    using le by linarith+
  then show ?thesis
    by (simp add: overlaps_def get_bb_def abs_le_iff)
qed

lemma zip3_map:
  "zip (map f xs) (zip (map g xs) (map h xs)) = map (\<lambda>x. (f x, g x, h x)) xs"
  by (induction xs) simp_all

lemma filter_by_contact_links:
  "filter_by_contact last_fr fr tolerance (map distance ls, map first ls, map second ls) =
     (let keep = filter (\<lambda>l. distance l <
                   ((r2 (last_fr ! first l) + r2 (fr ! second l)) * tolerance)\<^sup>2) ls
      in (map distance keep, map first keep, map second keep))"
  by (simp add: filter_by_contact_def zip3_map filter_map comp_def Let_def)

lemma links_of_within_contact:
  assumes "0 \<le> tolerance" and "tolerance \<le> 1"
    and "\<forall>c\<in>set last_fr. 0 \<le> r2 c" and "\<forall>c\<in>set fr. 0 \<le> r2 c"
    and "p < length last_fr"
  shows "links_of (map (\<lambda>q. (q, get_bb (fr ! q) 1)) [0..<length fr]) last_fr fr tolerance p =
    filter (\<lambda>l. distance l < ((r2 (last_fr ! first l) + r2 (fr ! second l)) * tolerance)\<^sup>2)
      (map (\<lambda>t. \<lparr>first = p, second = t, distance = sqdist2 (last_fr ! p) (fr ! t)\<rparr>)
         [0..<length fr])"
proof -
  let ?P = "\<lambda>it. sqdist2 (last_fr ! p) (fr ! it) <
                 ((r2 (last_fr ! p) + r2 (fr ! it)) * tolerance)\<^sup>2"
  let ?O = "\<lambda>it. overlaps (get_bb (last_fr ! p) tolerance) (get_bb (fr ! it) 1)"
  have "filter ?P (filter ?O [0..<length fr]) = filter ?P [0..<length fr]"
  proof -
    have "\<forall>it\<in>set [0..<length fr]. (?O it \<and> ?P it) = ?P it"
      using contact_imp_overlaps[of "last_fr ! p" _ tolerance] assms by auto
    then have "filter (\<lambda>it. ?O it \<and> ?P it) [0..<length fr] = filter ?P [0..<length fr]"
      by (intro filter_cong) simp_all
    then show ?thesis by (simp add: conj_commute)
  qed
  then show ?thesis
    by (simp add: links_of_def RTree_Query_map filter_map comp_def)
qed

lemma links_by_RStarTree_within_contact:
  assumes "0 \<le> tolerance" and "tolerance \<le> 1"
    and "\<forall>c\<in>set last_fr. 0 \<le> r2 c" and "\<forall>c\<in>set fr. 0 \<le> r2 c"
  shows "links_by_RStarTree last_fr fr tolerance =
         filter_by_contact last_fr fr tolerance (links_by_brute_force last_fr fr)"
proof -
  let ?tree = "map (\<lambda>q. (q, get_bb (fr ! q) 1)) [0..<length fr]"
  let ?K = "\<lambda>l. distance l < ((r2 (last_fr ! first l) + r2 (fr ! second l)) * tolerance)\<^sup>2"
  let ?row = "\<lambda>f. map (\<lambda>t. \<lparr>first = f, second = t,
                  distance = sqdist2 (last_fr ! f) (fr ! t)\<rparr>) [0..<length fr]"
  have m: "map (links_of ?tree last_fr fr tolerance) [0..<length last_fr] =
        map (\<lambda>f. filter ?K (?row f)) [0..<length last_fr]"
    using links_of_within_contact[OF assms] by (intro map_cong) simp_all
  have "filter ?K (concat (map ?row [0..<length last_fr])) =
        concat (map (\<lambda>f. filter ?K (?row f)) [0..<length last_fr])"
    by (simp add: filter_concat comp_def)
  then have "concat (map (links_of ?tree last_fr fr tolerance) [0..<length last_fr]) =
        filter ?K (concat (map ?row [0..<length last_fr]))"
    using m by metis
  then show ?thesis
    by (simp add: links_by_RStarTree_def links_by_brute_force_def RTree_fold_Insert
        filter_by_contact_links Let_def)
qed

text \<open>
  C3. The link search keeps a pair only when the box of the new detection, which is not
  widened by the tolerance, meets the box of the previous one: with a tolerance above 1
  it misses pairs that pass the distance test. Here the two detections of radius 1 are
  3.5 apart and the tolerance is 2: the squared distance 12.25 is below 16, and the
  search returns nothing.
\<close>

theorem links_by_RStarTree_misses_pair:
  "links_by_RStarTree [example_center 0 0 1] [example_center (7/2) 0 1] 2 = ([], [], []) \<and>
   filter_by_contact [example_center 0 0 1] [example_center (7/2) 0 1] 2
     (links_by_brute_force [example_center 0 0 1] [example_center (7/2) 0 1]) =
   ([49/4], [0], [0])"
  by code_simp

section \<open>Properties of the spatial queries\<close>

lemma dot_minus_Coord: "dot (minus_Coord a b) (minus_Coord a b) = sqdist a b"
  by (cases a, cases b) (simp add: power2_eq_square)

lemma sqdist_commute: "sqdist a b = sqdist b a"
  by (cases a, cases b) (simp add: power2_commute)

lemma sqdist_nonneg: "0 \<le> sqdist a b"
  by (cases a, cases b) simp

lemma encloses_point:
  "encloses (bounds (c0, c1, c2) r) (bounds (p0, p1, p2) 0) =
     (\<bar>p0 - c0\<bar> \<le> r \<and> \<bar>p1 - c1\<bar> \<le> r \<and> \<bar>p2 - c2\<bar> \<le> r)"
  by (auto simp: abs_le_iff)

lemma encloses_commute: "encloses (bounds c r) (bounds p 0) = encloses (bounds p r) (bounds c 0)"
  by (cases c, cases p) (simp only: encloses_point abs_minus_commute)

lemma encloses_nonneg: "encloses (bounds c r) (bounds p 0) \<Longrightarrow> 0 \<le> r"
  by (cases c, cases p) (simp only: encloses_point, linarith)

lemma sq_less_imp_abs_less:
  fixes d r :: real
  assumes "d\<^sup>2 < r * r" and "0 \<le> r"
  shows "\<bar>d\<bar> \<le> r"
proof -
  have "\<bar>d\<bar>\<^sup>2 < r\<^sup>2" using assms(1) by (simp add: power2_eq_square)
  then have "\<bar>d\<bar> < r" using assms(2) by (rule power2_less_imp_less)
  then show ?thesis by simp
qed

lemma close_imp_encloses:
  assumes "sqdist p c < r * r" and "0 \<le> r"
  shows "encloses (bounds c r) (bounds p 0)"
proof -
  obtain p0 p1 p2 c0 c1 c2 where pc: "p = (p0, p1, p2)" "c = (c0, c1, c2)"
    by (metis prod_cases3)
  have s: "(p0 - c0)\<^sup>2 + (p1 - c1)\<^sup>2 + (p2 - c2)\<^sup>2 < r * r"
    using assms(1) pc by simp
  have "(p0 - c0)\<^sup>2 < r * r"
    using s zero_le_power2[of "p1 - c1"] zero_le_power2[of "p2 - c2"] by linarith
  then have a0: "\<bar>p0 - c0\<bar> \<le> r"
    using assms(2) by (rule sq_less_imp_abs_less)
  have "(p1 - c1)\<^sup>2 < r * r"
    using s zero_le_power2[of "p0 - c0"] zero_le_power2[of "p2 - c2"] by linarith
  then have a1: "\<bar>p1 - c1\<bar> \<le> r"
    using assms(2) by (rule sq_less_imp_abs_less)
  have "(p2 - c2)\<^sup>2 < r * r"
    using s zero_le_power2[of "p0 - c0"] zero_le_power2[of "p1 - c1"] by linarith
  then have a2: "\<bar>p2 - c2\<bar> \<le> r"
    using assms(2) by (rule sq_less_imp_abs_less)
  show ?thesis
    unfolding pc encloses_point using a0 a1 a2 by blast
qed

text \<open>Inside the box and closer than \<open>r\<close> in square: the same as closer than \<open>r\<close>.\<close>

lemma within_iff_euclid:
  "(encloses (bounds c r) (bounds p 0) \<and> sqdist p c < r * r) = (euclid p c < r)"
proof (cases "0 \<le> r")
  case True
  have "(sqdist p c < r * r) = (euclid p c < r)"
  proof -
    have "(sqrt (sqdist p c) < r) = (sqdist p c < r\<^sup>2)"
      using True sqdist_nonneg[of p c] by (metis real_sqrt_abs abs_of_nonneg real_sqrt_less_iff)
    then show ?thesis by (simp add: euclid_def power2_eq_square)
  qed
  then show ?thesis
    using True close_imp_encloses by blast
next
  case False
  have "0 \<le> euclid p c"
    by (simp add: euclid_def sqdist_nonneg)
  then show ?thesis
    using False encloses_nonneg by fastforce
qed

lemma index_enclosed_indexed:
  "indexed P \<Longrightarrow> selectEnclosed P b =
     Inr (filter (\<lambda>i. encloses b (bounds (coords P ! i) 0)) [0..<length (coords P)])"
  by (simp add: indexed_def selectEnclosed_def index_enclosed_def filter_map comp_def)


lemma getEuclidianNeighbours_indexed:
  assumes "indexed P" and "center < length (coords P)"
  shows "getEuclidianNeighbours P center r =
     Inr (filter (\<lambda>i. i \<noteq> center \<and> euclid (coords P ! i) (coords P ! center) < r)
            [0..<length (coords P)])"
proof -
  let ?n = "length (coords P)"
  let ?c = "coords P ! center"
  let ?E = "\<lambda>i. encloses (bounds ?c r) (bounds (coords P ! i) 0)"
  let ?D = "\<lambda>i. i \<noteq> center \<and> sqdist (coords P ! i) ?c < r * r"
  have "getEuclidianNeighbours P center r = Inr (filter ?D (filter ?E [0..<?n]))"
    using index_enclosed_indexed[OF assms(1)] assms(2)
    by (simp add: getEuclidianNeighbours_def getDiff_def dot_minus_Coord)
  moreover have "filter ?D (filter ?E [0..<?n]) =
      filter (\<lambda>i. i \<noteq> center \<and> euclid (coords P ! i) ?c < r) [0..<?n]"
  proof -
    have "(?E i \<and> ?D i) = (i \<noteq> center \<and> euclid (coords P ! i) ?c < r)" for i
      using within_iff_euclid[of ?c r "coords P ! i"] by blast
    then show ?thesis by simp
  qed
  ultimately show ?thesis by simp
qed




lemma indexed_example_particles: "indexed example_particles"
  by code_simp


section \<open>Properties of the neighbour list\<close>

lemma euclid_commute: "euclid a b = euclid b a"
  by (simp add: euclid_def sqdist_commute)

lemma collect_neighbours_indexed:
  assumes "indexed P" and "\<forall>p\<in>set ps. p < length (coords P)"
  shows "collect_neighbours P sep ps =
     Inr (map (\<lambda>p. filter (\<lambda>i. i \<noteq> p \<and> euclid (coords P ! i) (coords P ! p) < sep)
                      [0..<length (coords P)]) ps)"
  using assms(2)
proof (induction ps)
  case Nil
  show ?case by simp
next
  case (Cons p ps)
  then show ?case
    using getEuclidianNeighbours_indexed[OF assms(1), of p sep] by simp
qed

lemma add_bonds_sets:
  assumes "\<forall>b\<in>set bs. low b < length ngb \<and> high b < length ngb"
  shows "\<exists>ngb'. add_bonds bs ngb = Inr ngb' \<and> length ngb' = length ngb \<and>
     (\<forall>i<length ngb. set (ngb' ! i) =
        set (ngb ! i) \<union> high ` {b \<in> set bs. low b = i} \<union>
        low ` {b \<in> set bs. high b = i})"
  using assms
proof (induction bs arbitrary: ngb)
  case Nil
  show ?case by simp
next
  case (Cons a bs)
  let ?n1 = "ngb[low a := ngb ! low a @ [high a]]"
  let ?n2 = "?n1[high a := ?n1 ! high a @ [low a]]"
  have la: "low a < length ngb" and ha: "high a < length ngb"
    using Cons.prems by simp_all
  have len: "length ?n2 = length ngb" by simp
  have step: "set (?n2 ! i) =
      set (ngb ! i) \<union> (if low a = i then {high a} else {}) \<union>
      (if high a = i then {low a} else {})" if "i < length ngb" for i
    using that la ha by (auto simp: nth_list_update)
  have "\<forall>b\<in>set bs. low b < length ?n2 \<and> high b < length ?n2"
    using Cons.prems by simp
  then obtain ngb' where r: "add_bonds bs ?n2 = Inr ngb'" "length ngb' = length ?n2"
    and s: "\<forall>i<length ?n2. set (ngb' ! i) =
        set (?n2 ! i) \<union> high ` {b \<in> set bs. low b = i} \<union>
        low ` {b \<in> set bs. high b = i}"
    using Cons.IH[of ?n2] by blast
  have "add_bonds (a # bs) ngb = Inr ngb'"
    using r(1) la ha by simp
  moreover have "length ngb' = length ngb"
    using r(2) by simp
  moreover have "\<forall>i<length ngb. set (ngb' ! i) =
        set (ngb ! i) \<union> high ` {b \<in> set (a # bs). low b = i} \<union>
        low ` {b \<in> set (a # bs). high b = i}"
  proof (intro allI impI)
    fix i assume i: "i < length ngb"
    have "set (ngb' ! i) = set (?n2 ! i) \<union> high ` {b \<in> set bs. low b = i} \<union>
        low ` {b \<in> set bs. high b = i}"
      using s i by simp
    moreover have "high ` {b \<in> set (a # bs). low b = i} =
        (if low a = i then {high a} else {}) \<union> high ` {b \<in> set bs. low b = i}"
      by (simp add: image_Un[symmetric] Collect_disj_eq[symmetric]) blast
    moreover have "low ` {b \<in> set (a # bs). high b = i} =
        (if high a = i then {low a} else {}) \<union> low ` {b \<in> set bs. high b = i}"
      by (simp add: image_Un[symmetric] Collect_disj_eq[symmetric]) blast
    ultimately show "set (ngb' ! i) =
        set (ngb ! i) \<union> high ` {b \<in> set (a # bs). low b = i} \<union>
        low ` {b \<in> set (a # bs). high b = i}"
      unfolding step[OF i] by (simp only: Un_assoc Un_left_commute Un_commute)
  qed
  ultimately show ?case by blast
qed

text \<open>
  C6. Built from the Euclidean queries of an indexed particle set, or from a set of bonds
  between its particles, the neighbour list is symmetric.
\<close>

theorem makeNgbList_symmetric:
  "(indexed P \<longrightarrow>
      (\<exists>P' ngb. makeNgbList P bondLength = Inr P' \<and> neighboursList P' = Some ngb \<and>
         length ngb = length (coords P) \<and>
         (\<forall>i<length (coords P). \<forall>j<length (coords P).
            (j \<in> set (ngb ! i)) = (i \<in> set (ngb ! j))))) \<and>
   ((\<forall>b\<in>set bonds. low b < length (coords P) \<and> high b < length (coords P)) \<longrightarrow>
      (\<exists>P' ngb. makeNgbList_bonds P bonds = Inr P' \<and> neighboursList P' = Some ngb \<and>
         length ngb = length (coords P) \<and>
         (\<forall>i<length (coords P). \<forall>j<length (coords P).
            (j \<in> set (ngb ! i)) = (i \<in> set (ngb ! j)))))"
proof (intro conjI impI)
  assume ix: "indexed P"
  let ?n = "length (coords P)"
  let ?sep = "2 * bondLength * radius P"
  let ?ngb = "map (\<lambda>p. filter (\<lambda>i. i \<noteq> p \<and> euclid (coords P ! i) (coords P ! p) < ?sep)
                      [0..<?n]) [0..<?n]"
  have "collect_neighbours P ?sep [0..<?n] = Inr ?ngb"
    using collect_neighbours_indexed[OF ix, of "[0..<?n]" ?sep] by simp
  then have "makeNgbList P bondLength = Inr (P\<lparr>neighboursList := Some ?ngb\<rparr>)"
    by (simp add: makeNgbList_def)
  moreover have "\<forall>i<?n. \<forall>j<?n. (j \<in> set (?ngb ! i)) = (i \<in> set (?ngb ! j))"
    using euclid_commute by auto
  ultimately show "\<exists>P' ngb. makeNgbList P bondLength = Inr P' \<and>
      neighboursList P' = Some ngb \<and> length ngb = ?n \<and>
      (\<forall>i<?n. \<forall>j<?n. (j \<in> set (ngb ! i)) = (i \<in> set (ngb ! j)))"
    by (intro exI[of _ "P\<lparr>neighboursList := Some ?ngb\<rparr>"] exI[of _ ?ngb]) simp
next
  assume b: "\<forall>b\<in>set bonds. low b < length (coords P) \<and> high b < length (coords P)"
  let ?n = "length (coords P)"
  obtain ngb where r: "add_bonds bonds (replicate ?n []) = Inr ngb" "length ngb = ?n"
    and s: "\<forall>i<?n. set (ngb ! i) =
        set (replicate ?n [] ! i) \<union> high ` {b \<in> set bonds. low b = i} \<union>
        low ` {b \<in> set bonds. high b = i}"
    using add_bonds_sets[of bonds "replicate ?n []"] b by auto
  define R where "R i j = (\<exists>b\<in>set bonds. (low b = i \<and> high b = j) \<or> (high b = i \<and> low b = j))"
    for i j
  have R_sym: "R i j = R j i" for i j
    unfolding R_def by (rule bex_cong) auto
  have m: "(j \<in> set (ngb ! i)) = R i j" if "i < ?n" for i j
  proof -
    have "set (ngb ! i) = high ` {b \<in> set bonds. low b = i} \<union>
        low ` {b \<in> set bonds. high b = i}"
      using s that by simp
    then show ?thesis
      unfolding R_def by (simp add: image_iff Bex_def) metis
  qed
  have "makeNgbList_bonds P bonds = Inr (P\<lparr>neighboursList := Some ngb\<rparr>)"
    using r(1) by (simp add: makeNgbList_bonds_def)
  moreover have "\<forall>i<?n. \<forall>j<?n. (j \<in> set (ngb ! i)) = (i \<in> set (ngb ! j))"
    using m R_sym by simp
  ultimately show "\<exists>P' ngb. makeNgbList_bonds P bonds = Inr P' \<and>
      neighboursList P' = Some ngb \<and> length ngb = ?n \<and>
      (\<forall>i<?n. \<forall>j<?n. (j \<in> set (ngb ! i)) = (i \<in> set (ngb ! j)))"
    using r(2) by (intro exI[of _ "P\<lparr>neighboursList := Some ngb\<rparr>"] exI[of _ ngb]) simp
qed

theorem makeNgbList_symmetric_witness:
  "makeNgbList example_particles (11 / 10) =
     Inr (example_particles\<lparr>neighboursList := Some [[1, 2], [0, 2], [0, 1], []]\<rparr>) \<and>
   makeNgbList_bonds example_particles [(0, 1), (1, 3)] =
     Inr (example_particles\<lparr>neighboursList := Some [[1], [0, 3], [], [1]]\<rparr>) \<and>
   (\<exists>P' ngb. makeNgbList example_particles (11 / 10) = Inr P' \<and>
      neighboursList P' = Some ngb \<and> (1 \<in> set (ngb ! 0)) = (0 \<in> set (ngb ! 1))) \<and>
   (\<exists>P' ngb. makeNgbList_bonds example_particles [(0, 1), (1, 3)] = Inr P' \<and>
      neighboursList P' = Some ngb \<and> (3 \<in> set (ngb ! 1)) = (1 \<in> set (ngb ! 3)))"
proof -
  have l: "length (coords example_particles) = 4"
    by (simp add: example_particles_def makeRTreeIndex_def)
  have b: "\<forall>b\<in>set [(0, 1), (1, 3)]. low b < length (coords example_particles) \<and>
      high b < length (coords example_particles)"
    using l by (simp add: low_def high_def)
  have e1: "makeNgbList example_particles (11 / 10) =
     Inr (example_particles\<lparr>neighboursList := Some [[1, 2], [0, 2], [0, 1], []]\<rparr>)"
    by code_simp
  have e2: "makeNgbList_bonds example_particles [(0, 1), (1, 3)] =
     Inr (example_particles\<lparr>neighboursList := Some [[1], [0, 3], [], [1]]\<rparr>)"
    by code_simp
  note t = makeNgbList_symmetric[of example_particles "11 / 10" "[(0, 1), (1, 3)]"]
  obtain P1 ngb1 where 1: "makeNgbList example_particles (11 / 10) = Inr P1"
    "neighboursList P1 = Some ngb1"
    "\<forall>i<length (coords example_particles). \<forall>j<length (coords example_particles).
            (j \<in> set (ngb1 ! i)) = (i \<in> set (ngb1 ! j))"
    using t[THEN conjunct1, THEN mp, OF indexed_example_particles] by blast
  obtain P2 ngb2 where 2: "makeNgbList_bonds example_particles [(0, 1), (1, 3)] = Inr P2"
    "neighboursList P2 = Some ngb2"
    "\<forall>i<length (coords example_particles). \<forall>j<length (coords example_particles).
            (j \<in> set (ngb2 ! i)) = (i \<in> set (ngb2 ! j))"
    using t[THEN conjunct2, THEN mp, OF b] by blast
  have "(1 \<in> set (ngb1 ! 0)) = (0 \<in> set (ngb1 ! 1))"
    using 1(3) l by simp
  moreover have "(3 \<in> set (ngb2 ! 1)) = (1 \<in> set (ngb2 ! 3))"
    using 2(3) l by simp
  ultimately show ?thesis
    using e1 e2 1(1,2) 2(1,2) by blast
qed

section \<open>Properties of the cut by minimum separation\<close>








section \<open>Properties of the 1551 pairs\<close>

lemma set_intersection_subset:
  "set (set_intersection xs ys) \<subseteq> set xs \<inter> set ys"
  by (induction xs ys rule: set_intersection.induct) auto

lemma set_intersection_set:
  "sorted_wrt (<) xs \<Longrightarrow> sorted_wrt (<) ys \<Longrightarrow>
   set (set_intersection xs ys) = set xs \<inter> set ys"
proof (induction xs ys rule: set_intersection.induct)
  case (1 ys)
  show ?case by simp
next
  case (2 x xs)
  show ?case by simp
next
  case (3 x xs y ys)
  consider "x < y" | "y < x" | "x = y" by linarith
  then show ?case
  proof cases
    case 1
    then have "x \<notin> set (y # ys)" using "3.prems"(2) by auto
    then show ?thesis using 1 "3.IH"(1) "3.prems" by auto
  next
    case 2
    then have "y \<notin> set (x # xs)" using "3.prems"(1) by auto
    then show ?thesis using 2 "3.IH"(2) "3.prems" by auto
  next
    case 3
    then have "x \<notin> set ys" "y \<notin> set xs" using "3.prems" by auto
    then show ?thesis using 3 "3.IH"(3) "3.prems" by auto
  qed
qed

lemma set_intersection_sorted:
  "sorted_wrt (<) xs \<Longrightarrow> sorted_wrt (<) ys \<Longrightarrow> sorted_wrt (<) (set_intersection xs ys)"
proof (induction xs ys rule: set_intersection.induct)
  case (3 x xs y ys)
  have "\<forall>z\<in>set (set_intersection xs ys). x < z"
    using set_intersection_subset[of xs ys] "3.prems"(1) by auto
  then show ?case using 3 by auto
qed simp_all

lemma set_intersection_length:
  assumes "sorted_wrt (<) xs" and "sorted_wrt (<) ys"
  shows "length (set_intersection xs ys) = card (set xs \<inter> set ys)"
proof -
  have "distinct (set_intersection xs ys)"
    using set_intersection_sorted[OF assms] strict_sorted_iff by blast
  then show ?thesis
    using set_intersection_set[OF assms] distinct_card by metis
qed

lemma lower_bound_sorted:
  "sorted_wrt (<) xs \<Longrightarrow> lower_bound xs v = filter (\<lambda>x. v \<le> x) xs"
proof (induction xs)
  case Nil
  show ?case by (simp add: lower_bound_def)
next
  case (Cons x xs)
  show ?case
  proof (cases "x < v")
    case True
    then show ?thesis using Cons by (simp add: lower_bound_def)
  next
    case False
    then have "\<forall>z\<in>set (x # xs). v \<le> z" using Cons.prems by auto
    then have "filter (\<lambda>x. v \<le> x) (x # xs) = x # xs"
      by (simp only: filter_id_conv)
    then show ?thesis using False by (simp add: lower_bound_def)
  qed
qed

lemma ring_loop_result:
  "\<forall>c\<in>set cs. c < length ngb \<Longrightarrow>
   ring_loop ngb common cs =
     Inr (\<forall>c\<in>set cs. length (set_intersection (ngb ! c) common) = 2)"
  by (induction cs) auto

lemma is_ring_result:
  assumes s: "\<forall>p<length ngb. sorted_wrt (<) (ngb ! p)"
    and r: "\<forall>p<length ngb. \<forall>q\<in>set (ngb ! p). q < length ngb"
    and p: "p < length ngb" and q: "q < length ngb"
  shows "is_ring ngb (set_intersection (ngb ! p) (ngb ! q)) =
         Inr (forms_ring ngb (set (ngb ! p) \<inter> set (ngb ! q)))"
proof -
  let ?common = "set_intersection (ngb ! p) (ngb ! q)"
  have cs: "set ?common = set (ngb ! p) \<inter> set (ngb ! q)"
    using s p q by (simp add: set_intersection_set)
  have so: "sorted_wrt (<) ?common"
    using s p q by (simp add: set_intersection_sorted)
  have rng: "\<forall>c\<in>set ?common. c < length ngb"
    using cs r p by auto
  have "length (set_intersection (ngb ! c) ?common) =
        card (set (ngb ! c) \<inter> (set (ngb ! p) \<inter> set (ngb ! q)))" if "c \<in> set ?common" for c
    using set_intersection_length[of "ngb ! c" ?common] s rng so cs that by simp
  then have "(\<forall>c\<in>set ?common. length (set_intersection (ngb ! c) ?common) = 2) =
        forms_ring ngb (set (ngb ! p) \<inter> set (ngb ! q))"
    using cs by (simp add: forms_ring_def)
  then show ?thesis
    using ring_loop_result[OF rng, of ?common] by (simp add: is_ring_def)
qed

lemma pairs_1551_of_result:
  assumes s: "\<forall>p<length ngb. sorted_wrt (<) (ngb ! p)"
    and r: "\<forall>p<length ngb. \<forall>q\<in>set (ngb ! p). q < length ngb"
    and p: "p < length ngb" and qs: "\<forall>q\<in>set qs. q < length ngb"
  shows "pairs_1551_of ngb p qs = Inr (map (Bond p) (filter (good_1551 ngb p) qs))"
  using qs
proof (induction qs)
  case Nil
  show ?case by simp
next
  case (Cons q qs)
  have q: "q < length ngb" using Cons.prems by simp
  have ih: "pairs_1551_of ngb p qs = Inr (map (Bond p) (filter (good_1551 ngb p) qs))"
    using Cons by simp
  have len: "length (set_intersection (ngb ! p) (ngb ! q)) =
      card (set (ngb ! p) \<inter> set (ngb ! q))"
    using set_intersection_length s p q by simp
  have gq: "good_1551 ngb p q =
      (card (set (ngb ! p) \<inter> set (ngb ! q)) = 5 \<and>
       forms_ring ngb (set (ngb ! p) \<inter> set (ngb ! q)))"
    by (simp add: good_1551_def)
  show ?case
    using q ih len is_ring_result[OF s r p q] gq by simp
qed

lemma pairs_1551_from_result:
  assumes s: "\<forall>p<length ngb. sorted_wrt (<) (ngb ! p)"
    and r: "\<forall>p<length ngb. \<forall>q\<in>set (ngb ! p). q < length ngb"
    and ps: "\<forall>p\<in>set ps. p < length ngb"
  shows "pairs_1551_from ngb ps =
     Inr (concat (map (\<lambda>p. map (Bond p)
            (filter (good_1551 ngb p) (filter (\<lambda>q. p + 1 \<le> q) (ngb ! p)))) ps))"
  using ps
proof (induction ps)
  case Nil
  show ?case by simp
next
  case (Cons p ps)
  have p: "p < length ngb" using Cons.prems by simp
  have lb: "lower_bound (ngb ! p) (p + 1) = filter (\<lambda>q. p + 1 \<le> q) (ngb ! p)"
    using s p by (simp add: lower_bound_sorted)
  have "\<forall>q\<in>set (filter (\<lambda>q. p + 1 \<le> q) (ngb ! p)). q < length ngb"
    using r p by simp
  then have "pairs_1551_of ngb p (lower_bound (ngb ! p) (p + 1)) =
      Inr (map (Bond p) (filter (good_1551 ngb p) (filter (\<lambda>q. p + 1 \<le> q) (ngb ! p))))"
    using pairs_1551_of_result[OF s r p] lb by simp
  then show ?case
    using Cons by simp
qed

text \<open>
  C7. On a neighbour list that is strictly ascending and names particles of the set only,
  \<open>get1551pairs\<close> succeeds and returns exactly the bonds \<open>(p, q)\<close>, \<open>p < q\<close>, \<open>q\<close> a
  neighbour of \<open>p\<close>, whose common neighbours are five and form a ring.
\<close>

theorem get1551pairs_exact:
  assumes "\<forall>p<length ngb. sorted_wrt (<) (ngb ! p)"
    and "\<forall>p<length ngb. \<forall>q\<in>set (ngb ! p). q < length ngb"
  shows "\<exists>ret. get1551pairs ngb = Inr ret \<and>
     set ret = {(p, q). p < length ngb \<and> q \<in> set (ngb ! p) \<and> p < q \<and>
                  card (set (ngb ! p) \<inter> set (ngb ! q)) = 5 \<and>
                  forms_ring ngb (set (ngb ! p) \<inter> set (ngb ! q))}"
proof -
  let ?row = "\<lambda>p. map (Bond p)
            (filter (good_1551 ngb p) (filter (\<lambda>q. p + 1 \<le> q) (ngb ! p)))"
  have g: "get1551pairs ngb = Inr (concat (map ?row [0..<length ngb]))"
    using pairs_1551_from_result[OF assms, of "[0..<length ngb]"]
    by (simp add: get1551pairs_def)
  have row: "set (?row p) = {(p, q) |q. q \<in> set (ngb ! p) \<and> p < q \<and> good_1551 ngb p q}" for p
    by (auto simp: Bond_def min_def max_def)
  have "set (concat (map ?row [0..<length ngb])) =
      (\<Union>p\<in>{0..<length ngb}. {(p, q) |q. q \<in> set (ngb ! p) \<and> p < q \<and> good_1551 ngb p q})"
    using row by simp
  also have "\<dots> = {(p, q). p < length ngb \<and> q \<in> set (ngb ! p) \<and> p < q \<and>
                  card (set (ngb ! p) \<inter> set (ngb ! q)) = 5 \<and>
                  forms_ring ngb (set (ngb ! p) \<inter> set (ngb ! q))}"
    by (auto simp: good_1551_def)
  finally show ?thesis
    using g by blast
qed

theorem get1551pairs_exact_witness:
  "get1551pairs example_ngb = Inr [(0, 1)] \<and>
   card (set (example_ngb ! 0) \<inter> set (example_ngb ! 1)) = 5 \<and>
   forms_ring example_ngb (set (example_ngb ! 0) \<inter> set (example_ngb ! 1))"
proof -
  have "\<forall>xs\<in>set example_ngb. sorted_wrt (<) xs"
    by (simp add: example_ngb_def)
  then have h1: "\<forall>p<length example_ngb. sorted_wrt (<) (example_ngb ! p)"
    by simp
  have "\<forall>xs\<in>set example_ngb. \<forall>q\<in>set xs. q < length example_ngb"
    by (simp add: example_ngb_def)
  then have h2: "\<forall>p<length example_ngb. \<forall>q\<in>set (example_ngb ! p). q < length example_ngb"
    using nth_mem by blast
  have e: "get1551pairs example_ngb = Inr [(0, 1)]"
    by code_simp
  obtain ret where r: "get1551pairs example_ngb = Inr ret"
    "set ret = {(p, q). p < length example_ngb \<and> q \<in> set (example_ngb ! p) \<and> p < q \<and>
                  card (set (example_ngb ! p) \<inter> set (example_ngb ! q)) = 5 \<and>
                  forms_ring example_ngb (set (example_ngb ! p) \<inter> set (example_ngb ! q))}"
    using get1551pairs_exact[OF h1 h2] by blast
  have "ret = [(0, 1)]"
    using r(1) e by simp
  then have "(0, 1) \<in> set ret"
    by simp
  then have "card (set (example_ngb ! 0) \<inter> set (example_ngb ! 1)) = 5 \<and>
      forms_ring example_ngb (set (example_ngb ! 0) \<inter> set (example_ngb ! 1))"
    unfolding r(2) by simp
  then show ?thesis
    using e by simp
qed

section \<open>Properties of the bond orientational order\<close>

lemma getBOO_no_bonds:
  "center < length ngb \<Longrightarrow> ngb ! center = [] \<Longrightarrow> getBOO Y P ngb center = Inr BooData_zero"
  by (simp add: getBOO_def)

lemma boo_div_zero_count: "boo_div BooData_zero 0 = replicate 36 NonFinite"
  by (simp add: boo_div_def BooData_zero_def)

lemma add_bond_other:
  assumes "p \<noteq> i" and "q \<noteq> i"
  shows "fst (add_bond Y P p q s) ! i = fst s ! i \<and> snd (add_bond Y P p q s) ! i = snd s ! i \<and>
         length (fst (add_bond Y P p q s)) = length (fst s) \<and>
         length (snd (add_bond Y P p q s)) = length (snd s)"
  using assms by (simp add: add_bond_def Let_def)

lemma add_bonds_of_other:
  assumes "p \<noteq> i \<or> qs = []" and "p < length (coords P)"
    and "\<forall>q\<in>set qs. q \<noteq> i \<and> q < length (coords P)"
  shows "\<exists>s'. add_bonds_of Y P p qs s = Inr s' \<and> fst s' ! i = fst s ! i \<and>
           snd s' ! i = snd s ! i \<and> length (fst s') = length (fst s) \<and>
           length (snd s') = length (snd s)"
  using assms(1,3)
proof (induction qs arbitrary: s)
  case Nil
  show ?case by simp
next
  case (Cons q qs)
  have pq: "p \<noteq> i" "q \<noteq> i" "q < length (coords P)"
    using Cons.prems by simp_all
  obtain s' where s': "add_bonds_of Y P p qs (add_bond Y P p q s) = Inr s'"
    "fst s' ! i = fst (add_bond Y P p q s) ! i" "snd s' ! i = snd (add_bond Y P p q s) ! i"
    "length (fst s') = length (fst (add_bond Y P p q s))"
    "length (snd s') = length (snd (add_bond Y P p q s))"
    using Cons.IH[of "add_bond Y P p q s"] Cons.prems pq(1) by auto
  have "add_bonds_of Y P p (q # qs) s = Inr s'"
    using s'(1) assms(2) pq(3) by simp
  then show ?case
    using s'(2-5) add_bond_other[OF pq(1,2), of Y P s] by simp
qed

lemma add_bonds_from_other:
  assumes "\<forall>p\<in>set ps. p < length ngb" and "length ngb = length (coords P)"
    and "\<forall>p<length ngb. \<forall>q\<in>set (ngb ! p). q \<noteq> i \<and> q < length ngb"
    and "i < length ngb" and "ngb ! i = []"
  shows "\<exists>s'. add_bonds_from Y P ngb ps s = Inr s' \<and> fst s' ! i = fst s ! i \<and>
           snd s' ! i = snd s ! i \<and> length (fst s') = length (fst s) \<and>
           length (snd s') = length (snd s)"
  using assms(1)
proof (induction ps arbitrary: s)
  case Nil
  show ?case by simp
next
  case (Cons p ps)
  let ?qs = "lower_bound (ngb ! p) (p + 1)"
  have p: "p < length ngb" using Cons.prems by simp
  have sub: "set ?qs \<subseteq> set (ngb ! p)"
    by (auto simp: lower_bound_def dest: set_dropWhileD)
  have e: "p \<noteq> i \<or> ?qs = []"
    using assms(5) by (auto simp: lower_bound_def)
  have "\<forall>q\<in>set ?qs. q \<noteq> i \<and> q < length (coords P)"
    using sub assms(2,3) p by auto
  then obtain s1 where s1: "add_bonds_of Y P p ?qs s = Inr s1" "fst s1 ! i = fst s ! i"
    "snd s1 ! i = snd s ! i" "length (fst s1) = length (fst s)"
    "length (snd s1) = length (snd s)"
    using add_bonds_of_other[OF e, of P Y s] p assms(2) by auto
  obtain s' where s': "add_bonds_from Y P ngb ps s1 = Inr s'" "fst s' ! i = fst s1 ! i"
    "snd s' ! i = snd s1 ! i" "length (fst s') = length (fst s1)"
    "length (snd s') = length (snd s1)"
    using Cons.IH[of s1] Cons.prems by auto
  have "add_bonds_from Y P ngb (p # ps) s = Inr s'"
    using s1(1) s'(1) by simp
  then show ?case
    using s1(2-5) s'(2-5) by simp
qed

text \<open>
  C2. For a particle without neighbours \<open>getBOO\<close> returns the zero descriptor. The
  traversal \<open>getBOOs\<close> does not: it divides the untouched zero descriptor of such a
  particle by its bond count 0, without the guard that \<open>getBOO\<close> and \<open>getSurfBOOs\<close> have,
  so that every coefficient becomes 0/0.
\<close>

theorem getBOOs_no_bonds_not_zero:
  assumes "length ngb = length (coords P)"
    and "\<forall>p<length ngb. \<forall>q\<in>set (ngb ! p). q \<noteq> i \<and> q < length ngb"
    and "i < length ngb" and "ngb ! i = []"
  shows "getBOO Y P ngb i = Inr BooData_zero \<and>
         (\<exists>BOO. getBOOs Y P ngb [] = Inr BOO \<and> length BOO = length (coords P) \<and>
            BOO ! i = replicate 36 NonFinite \<and> BOO ! i \<noteq> BooData_zero)"
proof -
  let ?n = "length (coords P)"
  let ?s = "(replicate ?n BooData_zero, replicate ?n (0::nat))"
  obtain s' where s': "add_bonds_from Y P ngb [0..<length ngb] ?s = Inr s'"
    "fst s' ! i = fst ?s ! i" "snd s' ! i = snd ?s ! i"
    "length (fst s') = length (fst ?s)" "length (snd s') = length (snd ?s)"
    using add_bonds_from_other[OF _ assms, of "[0..<length ngb]" Y ?s] by auto
  have g: "getBOOs Y P ngb [] = Inr (map2 boo_div (fst s') (snd s'))"
    using s'(1) by (simp add: getBOOs_def)
  have i: "i < ?n" using assms(1,3) by simp
  have "map2 boo_div (fst s') (snd s') ! i = boo_div (fst s' ! i) (snd s' ! i)"
    using s'(4,5) i by simp
  also have "\<dots> = replicate 36 NonFinite"
    using s'(2,3) i by (simp add: boo_div_zero_count)
  finally have b: "map2 boo_div (fst s') (snd s') ! i = replicate 36 NonFinite" .
  have "replicate 36 NonFinite \<noteq> BooData_zero"
    by (simp add: BooData_zero_def)
  then show ?thesis
    using g b s'(4,5) getBOO_no_bonds[OF assms(3,4)] by simp
qed

theorem getBOOs_no_bonds_not_zero_witness:
  "getBOOs (\<lambda>r. BooData_zero) lone_particle [[]] [] = Inr [replicate 36 NonFinite] \<and>
   getBOO (\<lambda>r. BooData_zero) lone_particle [[]] 0 = Inr BooData_zero \<and>
   normalize_guarded [BooData_zero] [0] = [BooData_zero] \<and>
   (\<exists>BOO. getBOOs (\<lambda>r. BooData_zero) lone_particle [[]] [] = Inr BOO \<and>
      BOO ! 0 \<noteq> BooData_zero)"
proof -
  have e: "getBOOs (\<lambda>r. BooData_zero) lone_particle [[]] [] = Inr [replicate 36 NonFinite]"
    "getBOO (\<lambda>r. BooData_zero) lone_particle [[]] 0 = Inr BooData_zero"
    "normalize_guarded [BooData_zero] [0] = [BooData_zero]"
    by (simp_all add: getBOOs_def getBOO_def lone_particle_def lower_bound_def
        boo_div_zero_count normalize_guarded_def)
  have h: "length [[]::nat list] = length (coords lone_particle)"
    "\<forall>p<length [[]::nat list]. \<forall>q\<in>set ([[]] ! p). q \<noteq> 0 \<and> q < length [[]::nat list]"
    "0 < length [[]::nat list]" "[[]::nat list] ! 0 = []"
    by (simp_all add: lone_particle_def)
  have "\<exists>BOO. getBOOs (\<lambda>r. BooData_zero) lone_particle [[]] [] = Inr BOO \<and>
      BOO ! 0 \<noteq> BooData_zero"
    using getBOOs_no_bonds_not_zero[OF h, of "\<lambda>r. BooData_zero"] by blast
  then show ?thesis
    using e by blast
qed

section \<open>Properties of the reconstructor\<close>

lemma links_of_range:
  assumes "l \<in> set (links_of (map (\<lambda>q. (q, g q)) [0..<n]) last_fr fr tolerance p)"
  shows "first l = p \<and> second l < n"
  using assms by (auto simp: links_of_def RTree_Query_map)

lemma links_by_RStarTree_valid:
  assumes "links_by_RStarTree last_fr fr tolerance = (ds, fs, ts)"
  shows "length ds = length fs \<and> length fs = length ts \<and>
         (\<forall>f\<in>set fs. f < length last_fr) \<and> (\<forall>t\<in>set ts. t < length fr)"
proof -
  let ?tree = "map (\<lambda>q. (q, get_bb (fr ! q) 1)) [0..<length fr]"
  let ?ls = "concat (map (links_of ?tree last_fr fr tolerance) [0..<length last_fr])"
  have e: "ds = map distance ?ls" "fs = map first ?ls" "ts = map second ?ls"
    using assms by (simp_all add: links_by_RStarTree_def RTree_fold_Insert Let_def)
  have "\<forall>l\<in>set ?ls. first l < length last_fr \<and> second l < length fr"
    using links_of_range[of _ "\<lambda>q. get_bb (fr ! q) 1" "length fr" last_fr fr tolerance]
    by auto
  then show ?thesis
    unfolding e by simp
qed

text \<open>
  The loop over the positions \<open>ps\<close> of the new frame, whose trajectory ids are \<open>cur\<close>: the
  clusters below \<open>old\<close> receive the positions of their trajectory, and every position with
  a new trajectory adds a cluster, in the order of the positions.
\<close>

lemma update_clusters_result:
  assumes "t < length (pos2tr ti)" and "\<forall>p\<in>set ps. p < length (pos2tr ti ! t)"
    and "old \<le> length cls"
  shows "update_clusters ti t old fr ps cls =
     Inr (map (\<lambda>tr. cls ! tr @ map (\<lambda>p. Center3D_of (fr ! p) t)
                 (filter (\<lambda>p. pos2tr ti ! t ! p = tr) ps)) [0..<old] @
          drop old cls @
          map (\<lambda>p. [Center3D_of (fr ! p) t]) (filter (\<lambda>p. old \<le> pos2tr ti ! t ! p) ps))"
  using assms(2,3)
proof (induction ps arbitrary: cls)
  case Nil
  have "map (\<lambda>tr. cls ! tr) [0..<old] = take old cls"
    using Nil.prems(2) by (simp add: list_eq_iff_nth_eq)
  then show ?case by simp
next
  case (Cons p ps)
  let ?cur = "pos2tr ti ! t"
  let ?c = "Center3D_of (fr ! p) t"
  have g: "getTraj ti t p = Some (?cur ! p)"
    using assms(1) Cons.prems(1) by (simp add: getTraj_def)
  show ?case
  proof (cases "?cur ! p < old")
    case True
    let ?cls1 = "cls[?cur ! p := cls ! (?cur ! p) @ [?c]]"
    have ih: "update_clusters ti t old fr ps ?cls1 =
     Inr (map (\<lambda>tr. ?cls1 ! tr @ map (\<lambda>p. Center3D_of (fr ! p) t)
                 (filter (\<lambda>p. ?cur ! p = tr) ps)) [0..<old] @
          drop old ?cls1 @
          map (\<lambda>p. [Center3D_of (fr ! p) t]) (filter (\<lambda>p. old \<le> ?cur ! p) ps))"
      using Cons.prems by (intro Cons.IH) simp_all
    have m: "map (\<lambda>tr. ?cls1 ! tr @ map (\<lambda>p. Center3D_of (fr ! p) t)
                 (filter (\<lambda>p. ?cur ! p = tr) ps)) [0..<old] =
             map (\<lambda>tr. cls ! tr @ map (\<lambda>p. Center3D_of (fr ! p) t)
                 (filter (\<lambda>p. ?cur ! p = tr) (p # ps))) [0..<old]"
      using Cons.prems(2) by (intro map_cong) (auto simp: nth_list_update)
    have d: "drop old ?cls1 = drop old cls"
      using True by simp
    have f: "filter (\<lambda>p. old \<le> ?cur ! p) (p # ps) = filter (\<lambda>p. old \<le> ?cur ! p) ps"
      using True by simp
    have "update_clusters ti t old fr (p # ps) cls = update_clusters ti t old fr ps ?cls1"
      using g True Cons.prems(2) by simp
    then show ?thesis
      unfolding ih m d f by simp
  next
    case False
    let ?cls1 = "cls @ [[?c]]"
    have ih: "update_clusters ti t old fr ps ?cls1 =
     Inr (map (\<lambda>tr. ?cls1 ! tr @ map (\<lambda>p. Center3D_of (fr ! p) t)
                 (filter (\<lambda>p. ?cur ! p = tr) ps)) [0..<old] @
          drop old ?cls1 @
          map (\<lambda>p. [Center3D_of (fr ! p) t]) (filter (\<lambda>p. old \<le> ?cur ! p) ps))"
      using Cons.prems by (intro Cons.IH) simp_all
    have m: "map (\<lambda>tr. ?cls1 ! tr @ map (\<lambda>p. Center3D_of (fr ! p) t)
                 (filter (\<lambda>p. ?cur ! p = tr) ps)) [0..<old] =
             map (\<lambda>tr. cls ! tr @ map (\<lambda>p. Center3D_of (fr ! p) t)
                 (filter (\<lambda>p. ?cur ! p = tr) (p # ps))) [0..<old]"
      using Cons.prems(2) False by (intro map_cong) (auto simp: nth_append)
    have d: "drop old ?cls1 = drop old cls @ [[?c]]"
      using Cons.prems(2) by simp
    have f: "filter (\<lambda>p. old \<le> ?cur ! p) (p # ps) = p # filter (\<lambda>p. old \<le> ?cur ! p) ps"
      using False by simp
    have "update_clusters ti t old fr (p # ps) cls = update_clusters ti t old fr ps ?cls1"
      using g False by simp
    then show ?thesis
      unfolding ih m d f by simp
  qed
qed

lemma filter_eq_length_le_one:
  "distinct (map g xs) \<Longrightarrow> length (filter (\<lambda>x. g x = v) xs) \<le> 1"
proof (induction xs)
  case Nil
  show ?case by simp
next
  case (Cons x xs)
  show ?case
  proof (cases "g x = v")
    case True
    have "g x \<notin> g ` set xs" using Cons.prems by simp
    then have "\<forall>y\<in>set xs. g y \<noteq> v" using True by blast
    then have "filter (\<lambda>x. g x = v) xs = []" by (simp add: filter_empty_conv)
    then show ?thesis using True by simp
  next
    case False
    then show ?thesis using Cons by simp
  qed
qed

lemma filter_upt_length_mono:
  assumes "p < p'" and "Q p"
  shows "length (filter Q [0..<p]) < length (filter Q [0..<p'])"
proof -
  have "[0..<p'] = [0..<p] @ [p..<p']"
    using upt_add_eq_append[of 0 p "p' - p"] assms(1) by simp
  moreover have "[p..<p'] = p # [Suc p..<p']"
    using assms(1) by (rule upt_conv_Cons)
  ultimately have "[0..<p'] = [0..<p] @ p # [Suc p..<p']"
    by simp
  then have "filter Q [0..<p'] = filter Q [0..<p] @ p # filter Q [Suc p..<p']"
    using assms(2) by simp
  then show ?thesis by simp
qed

lemma short_lists_eq:
  assumes "set xs = set ys" and "length xs \<le> 1" and "length ys \<le> 1"
  shows "xs = ys"
proof (cases xs)
  case Nil
  then show ?thesis using assms(1) by simp
next
  case (Cons x xs')
  then have x: "xs = [x]" using assms(2) by simp
  then obtain y where y: "ys = [y]"
    using assms(1,3) by (cases ys) auto
  then show ?thesis using x assms(1) by simp
qed

text \<open>
  What \<open>add_Frame\<close> does to the last frame of a well-formed index: old trajectories are
  extended by at most one position, and only those of the previous frame; the positions
  without link get the new ids, in ascending order; no id is given twice.
\<close>

lemma add_Frame_new_frame:
  assumes len: "length distances = length p_from" "length p_from = length p_to"
    and ne: "p_to \<noteq> []"
    and to: "\<forall>t\<in>set p_to. t < frame_size"
    and fr: "\<forall>f\<in>set p_from. f < length (last (pos2tr ti))"
    and wf: "pos2tr ti \<noteq> []" "\<forall>tr\<in>set (last (pos2tr ti)). tr < length (tr2pos ti)"
    and di: "distinct (last (pos2tr ti))"
  shows "\<exists>cur' trs' U.
    add_Frame ti frame_size distances p_from p_to =
      Inr \<lparr>tr2pos = trs' @ map (new_Traj (length (pos2tr ti))) U,
           pos2tr = pos2tr ti @ [cur']\<rparr> \<and>
    length trs' = length (tr2pos ti) \<and> length cur' = frame_size \<and>
    (\<forall>tr<length (tr2pos ti). start (trs' ! tr) = start (tr2pos ti ! tr) \<and>
       positions (trs' ! tr) = positions (tr2pos ti ! tr) @
         filter (\<lambda>p. cur' ! p = tr) [0..<frame_size]) \<and>
    (\<forall>tr<length (tr2pos ti). length (filter (\<lambda>p. cur' ! p = tr) [0..<frame_size]) \<le> 1) \<and>
    (\<forall>tr<length (tr2pos ti). filter (\<lambda>p. cur' ! p = tr) [0..<frame_size] \<noteq> [] \<longrightarrow>
       tr \<in> set (last (pos2tr ti))) \<and>
    filter (\<lambda>p. length (tr2pos ti) \<le> cur' ! p) [0..<frame_size] = U \<and>
    (\<forall>p<frame_size. length (tr2pos ti) \<le> cur' ! p \<longrightarrow>
       cur' ! p < length (tr2pos ti) + length U) \<and>
    distinct cur'"
proof -
  let ?prev = "last (pos2tr ti)"
  let ?old = "length (tr2pos ti)"
  let ?acc = "accepted_links distances p_from p_to"
  let ?L = "second ` set ?acc"
  let ?U = "filter (\<lambda>p. p \<notin> ?L) [0..<frame_size]"
  let ?idx = "\<lambda>p. length (filter (\<lambda>q. q \<notin> ?L) [0..<p])"
  obtain cur' trs' where
    r: "add_Frame ti frame_size distances p_from p_to =
      Inr \<lparr>tr2pos = trs' @ map (new_Traj (length (pos2tr ti))) ?U,
           pos2tr = pos2tr ti @ [cur']\<rparr>"
    and l: "length trs' = ?old" "length cur' = frame_size"
    and t: "\<forall>tr<?old. trs' ! tr =
       (tr2pos ti ! tr)\<lparr>positions := positions (tr2pos ti ! tr) @
          map second (filter (\<lambda>b. ?prev ! first b = tr) ?acc)\<rparr>"
    and c: "\<forall>b\<in>set ?acc. cur' ! second b = ?prev ! first b"
    and u: "\<forall>p<frame_size. p \<notin> ?L \<longrightarrow> cur' ! p = ?old + ?idx p"
    using add_Frame_result[OF len ne to fr wf] by blast
  have acc: "?acc = greedy_scan (sort_key distance (make_bonds distances p_from p_to)) {} {}"
    by (simp add: accepted_links_def)
  have sub: "set ?acc \<subseteq> set (make_bonds distances p_from p_to)"
    using greedy_scan_subset[of "sort_key distance (make_bonds distances p_from p_to)" "{}" "{}"]
    unfolding acc by simp
  have rng: "\<forall>b\<in>set ?acc. first b < length ?prev \<and> second b < frame_size"
    using make_bonds_range[OF len] sub to fr by blast
  have d1: "distinct (map first ?acc)"
    unfolding acc by (rule greedy_scan_distinct_first)
  have d2: "distinct (map second ?acc)"
    unfolding acc by (rule greedy_scan_distinct_second)
  have lo: "cur' ! second b < ?old" if "b \<in> set ?acc" for b
    using c rng wf(2) that by (metis nth_mem)
  have linked: "(cur' ! p < ?old) = (p \<in> ?L)" if "p < frame_size" for p
  proof (cases "p \<in> ?L")
    case True
    then show ?thesis using lo by auto
  next
    case False
    then show ?thesis using u that by simp
  qed
  have owner_inj: "distinct (map (\<lambda>b. ?prev ! first b) ?acc)"
  proof -
    have "inj_on (\<lambda>f. ?prev ! f) (set (map first ?acc))"
      using di rng by (auto simp: inj_on_def nth_eq_iff_index_eq)
    then have "distinct (map first ?acc) \<and> inj_on (\<lambda>f. ?prev ! f) (set (map first ?acc))"
      using d1 by blast
    then have "distinct (map (\<lambda>f. ?prev ! f) (map first ?acc))"
      by (rule iffD2[OF distinct_map])
    then show ?thesis by (simp add: comp_def)
  qed
  have same: "set (map second (filter (\<lambda>b. ?prev ! first b = tr) ?acc)) =
      set (filter (\<lambda>p. cur' ! p = tr) [0..<frame_size])" if tr: "tr < ?old" for tr
  proof -
    let ?A = "filter (\<lambda>b. ?prev ! first b = tr) ?acc"
    have "set (filter (\<lambda>p. cur' ! p = tr) [0..<frame_size]) = set (map second ?A)"
    proof (intro set_eqI iffI)
      fix p assume "p \<in> set (filter (\<lambda>p. cur' ! p = tr) [0..<frame_size])"
      then have p: "p < frame_size" "cur' ! p = tr" by simp_all
      then have "p \<in> ?L" using linked tr by blast
      then obtain b where b: "b \<in> set ?acc" "p = second b" by blast
      then have "?prev ! first b = tr" using c p(2) by simp
      then show "p \<in> set (map second ?A)" using b by simp
    next
      fix p assume "p \<in> set (map second ?A)"
      then obtain b where b: "b \<in> set ?acc" "?prev ! first b = tr" "p = second b" by auto
      then show "p \<in> set (filter (\<lambda>p. cur' ! p = tr) [0..<frame_size])"
        using c rng by simp
    qed
    then show ?thesis by simp
  qed
  have cnt: "length (filter (\<lambda>p. cur' ! p = tr) [0..<frame_size]) =
      length (filter (\<lambda>b. ?prev ! first b = tr) ?acc)" if tr: "tr < ?old" for tr
  proof -
    let ?A = "filter (\<lambda>b. ?prev ! first b = tr) ?acc"
    have "distinct (map second ?A)"
      using d2 by (rule distinct_map_filter)
    moreover have "distinct (filter (\<lambda>p. cur' ! p = tr) [0..<frame_size])"
      by simp
    ultimately have "length (filter (\<lambda>p. cur' ! p = tr) [0..<frame_size]) =
        length (map second ?A)"
      using same[OF tr] by (metis distinct_card)
    then show ?thesis by simp
  qed
  have p2: "\<forall>tr<?old. length (filter (\<lambda>p. cur' ! p = tr) [0..<frame_size]) \<le> 1"
    using cnt filter_eq_length_le_one[OF owner_inj] by simp
  have p1: "\<forall>tr<?old. start (trs' ! tr) = start (tr2pos ti ! tr) \<and>
       positions (trs' ! tr) = positions (tr2pos ti ! tr) @
         filter (\<lambda>p. cur' ! p = tr) [0..<frame_size]"
  proof (intro allI impI)
    fix tr assume tr: "tr < ?old"
    have "map second (filter (\<lambda>b. ?prev ! first b = tr) ?acc) =
        filter (\<lambda>p. cur' ! p = tr) [0..<frame_size]"
      using same[OF tr] filter_eq_length_le_one[OF owner_inj, of tr] p2 tr
      by (intro short_lists_eq) simp_all
    then show "start (trs' ! tr) = start (tr2pos ti ! tr) \<and>
       positions (trs' ! tr) = positions (tr2pos ti ! tr) @
         filter (\<lambda>p. cur' ! p = tr) [0..<frame_size]"
      using t tr by simp
  qed
  have p3: "\<forall>tr<?old. filter (\<lambda>p. cur' ! p = tr) [0..<frame_size] \<noteq> [] \<longrightarrow> tr \<in> set ?prev"
  proof (intro allI impI)
    fix tr assume tr: "tr < ?old"
      and "filter (\<lambda>p. cur' ! p = tr) [0..<frame_size] \<noteq> []"
    then have "filter (\<lambda>b. ?prev ! first b = tr) ?acc \<noteq> []"
      using cnt[OF tr] by (metis length_0_conv)
    then obtain b where "b \<in> set ?acc" "?prev ! first b = tr"
      by (metis (mono_tags, lifting) filter_False)
    then show "tr \<in> set ?prev"
      using rng by (metis nth_mem)
  qed
  have p4: "filter (\<lambda>p. ?old \<le> cur' ! p) [0..<frame_size] = ?U"
    using linked by (intro filter_cong) (auto simp: not_less[symmetric])
  have p5: "\<forall>p<frame_size. ?old \<le> cur' ! p \<longrightarrow> cur' ! p < ?old + length ?U"
  proof (intro allI impI)
    fix p assume p: "p < frame_size" and "?old \<le> cur' ! p"
    then have nl: "p \<notin> ?L" using linked[OF p] by simp
    then have "?idx p < length ?U"
      using filter_upt_length_mono[OF p, of "\<lambda>q. q \<notin> ?L"] by simp
    then show "cur' ! p < ?old + length ?U"
      using u p nl by simp
  qed
  have p6: "distinct cur'"
    unfolding distinct_conv_nth
  proof (intro allI impI)
    fix i j assume i: "i < length cur'" and j: "j < length cur'" and ne: "i \<noteq> j"
    have i': "i < frame_size" and j': "j < frame_size" using i j l by simp_all
    consider "i \<in> ?L" "j \<in> ?L" | "i \<in> ?L" "j \<notin> ?L" | "i \<notin> ?L" "j \<in> ?L"
      | "i \<notin> ?L" "j \<notin> ?L" by blast
    then show "cur' ! i \<noteq> cur' ! j"
    proof cases
      case 1
      then obtain a b where ab: "a \<in> set ?acc" "i = second a" "b \<in> set ?acc" "j = second b"
        by blast
      then have "a \<noteq> b" using ne by auto
      then have "?prev ! first a \<noteq> ?prev ! first b"
        using owner_inj ab(1,3) by (simp add: distinct_map inj_on_def) blast
      then show ?thesis using c ab by simp
    next
      case 2
      then show ?thesis using linked[OF i'] linked[OF j'] by auto
    next
      case 3
      then show ?thesis using linked[OF i'] linked[OF j'] by auto
    next
      case 4
      have "?idx i \<noteq> ?idx j"
      proof (cases "i < j")
        case True
        then show ?thesis
          using filter_upt_length_mono[OF True, of "\<lambda>q. q \<notin> ?L"] 4 by simp
      next
        case False
        then have "j < i" using ne by simp
        then show ?thesis
          using filter_upt_length_mono[of j i "\<lambda>q. q \<notin> ?L"] 4 by simp
      qed
      then show ?thesis using u i' j' 4 by simp
    qed
  qed
  show ?thesis
    by (intro exI[of _ cur'] exI[of _ trs'] exI[of _ ?U] conjI r l p1 p2 p3 p4 p5 p6)
qed

lemma z3_Center3D_of: "z3 (Center3D_of c t) = real t"
  by (simp add: Center3D_of_def)

lemma z3_cluster_of: "map z3 (cluster_of frs T) = map real (spanned T)"
proof -
  have "[start T..<start T + length (positions T)] =
      map (\<lambda>i. i + start T) [0..<length (positions T)]"
    by (simp add: map_add_upt add.commute)
  then show ?thesis
    by (simp add: cluster_of_def spanned_def comp_def z3_Center3D_of add.commute)
qed

lemma cluster_of_unchanged:
  assumes "start T + length (positions T) \<le> length frs"
  shows "cluster_of (frs @ [fr]) T = cluster_of frs T"
  unfolding cluster_of_def using assms by (intro map_cong) (simp_all add: nth_append)

lemma cluster_of_extended:
  assumes "start T + length (positions T) = length frs"
  shows "cluster_of (frs @ [fr]) (T\<lparr>positions := positions T @ [p]\<rparr>) =
         cluster_of frs T @ [Center3D_of (fr ! p) (length frs)]"
proof -
  let ?f = "\<lambda>k. Center3D_of ((frs @ [fr]) ! (start T + k) ! ((positions T @ [p]) ! k))
                  (start T + k)"
  have "map ?f [0..<length (positions T)] = cluster_of frs T"
    unfolding cluster_of_def using assms by (intro map_cong) (simp_all add: nth_append)
  moreover have "?f (length (positions T)) = Center3D_of (fr ! p) (length frs)"
    using assms by (simp add: nth_append)
  ultimately show ?thesis
    by (simp add: cluster_of_def)
qed

lemma rc_inv_first_frame:
  assumes "trajectories rc = None" and "clusters rc = []"
  shows "\<exists>rc'. push_back rc fr tolerance = Inr rc' \<and> rc_inv [fr] rc'"
proof -
  let ?rc' = "\<lparr>clusters = map (\<lambda>c. [Center3D_of c 0]) fr,
               trajectories = Some (TrajIndex_init (length fr)), last_frame = fr\<rparr>"
  have "push_back rc fr tolerance = Inr ?rc'"
    using assms by (simp add: push_back_def)
  moreover have "rc_inv [fr] ?rc'"
    by (simp add: rc_inv_def TrajIndex_init_def new_Traj_def cluster_of_def)
  ultimately show ?thesis by blast
qed

lemma rc_inv_next_frame:
  assumes ti: "trajectories rc = Some ti" and inv: "rc_inv frs rc"
    and pb: "push_back rc fr tolerance = Inr rc'"
  shows "rc_inv (frs @ [fr]) rc'"
proof -
  let ?n = "length fr"
  let ?t = "length (pos2tr ti)"
  let ?old = "length (tr2pos ti)"
  let ?prev = "last (pos2tr ti)"
  have i_l: "length frs = ?t"
    and i_c: "pos2tr ti \<noteq> []"
    and i_a: "length (clusters rc) = ?old"
    and i_b: "\<forall>tr<?old. clusters rc ! tr = cluster_of frs (tr2pos ti ! tr)"
    and i_s: "\<forall>tr<?old. start (tr2pos ti ! tr) + length (positions (tr2pos ti ! tr)) \<le> ?t"
    and i_d: "length ?prev = length (last_frame rc)"
    and i_e: "\<forall>tr\<in>set ?prev. tr < ?old \<and>
        start (tr2pos ti ! tr) + length (positions (tr2pos ti ! tr)) = ?t"
    and i_f: "distinct ?prev"
    using inv ti by (simp_all add: rc_inv_def)
  obtain ds fs ts where lk: "links_by_RStarTree (last_frame rc) fr tolerance = (ds, fs, ts)"
    by (metis prod_cases3)
  have v: "length ds = length fs" "length fs = length ts"
    "\<forall>f\<in>set fs. f < length ?prev" "\<forall>t\<in>set ts. t < ?n"
    using links_by_RStarTree_valid[OF lk] i_d by simp_all
  obtain ti' where af: "add_Frame ti ?n ds fs ts = Inr ti'"
    using pb ti lk by (auto simp: push_back_def Let_def split: sum.splits)
  obtain cls where uc: "update_clusters ti' ?t ?old fr [0..<?n] (clusters rc) = Inr cls"
    and rc': "rc' = \<lparr>clusters = cls, trajectories = Some ti', last_frame = fr\<rparr>"
    using pb ti lk af
    by (auto simp: push_back_def Let_def nbFrames_def TrajIndex_size_def split: sum.splits)
  have ne: "ts \<noteq> []"
    using af v(1,2) add_Frame_no_links[of ds fs ts ti ?n] by auto
  have w: "\<forall>tr\<in>set ?prev. tr < ?old"
    using i_e by simp
  obtain cur' trs' U where
    r: "add_Frame ti ?n ds fs ts =
      Inr \<lparr>tr2pos = trs' @ map (new_Traj ?t) U, pos2tr = pos2tr ti @ [cur']\<rparr>"
    and l: "length trs' = ?old" "length cur' = ?n"
    and p1: "\<forall>tr<?old. start (trs' ! tr) = start (tr2pos ti ! tr) \<and>
       positions (trs' ! tr) = positions (tr2pos ti ! tr) @
         filter (\<lambda>p. cur' ! p = tr) [0..<?n]"
    and p2: "\<forall>tr<?old. length (filter (\<lambda>p. cur' ! p = tr) [0..<?n]) \<le> 1"
    and p3: "\<forall>tr<?old. filter (\<lambda>p. cur' ! p = tr) [0..<?n] \<noteq> [] \<longrightarrow> tr \<in> set ?prev"
    and p4: "filter (\<lambda>p. ?old \<le> cur' ! p) [0..<?n] = U"
    and p5: "\<forall>p<?n. ?old \<le> cur' ! p \<longrightarrow> cur' ! p < ?old + length U"
    and p6: "distinct cur'"
    using add_Frame_new_frame[OF v(1,2) ne v(4,3) i_c w i_f] by blast
  have ti': "ti' = \<lparr>tr2pos = trs' @ map (new_Traj ?t) U, pos2tr = pos2tr ti @ [cur']\<rparr>"
    using af r by simp
  have fr_t: "pos2tr ti' ! ?t = cur'"
    by (simp add: ti')
  have "update_clusters ti' ?t ?old fr [0..<?n] (clusters rc) =
     Inr (map (\<lambda>tr. clusters rc ! tr @ map (\<lambda>p. Center3D_of (fr ! p) ?t)
                 (filter (\<lambda>p. pos2tr ti' ! ?t ! p = tr) [0..<?n])) [0..<?old] @
          drop ?old (clusters rc) @
          map (\<lambda>p. [Center3D_of (fr ! p) ?t])
            (filter (\<lambda>p. ?old \<le> pos2tr ti' ! ?t ! p) [0..<?n]))"
    using l i_a by (intro update_clusters_result) (simp_all add: ti')
  then have cls: "cls =
     map (\<lambda>tr. clusters rc ! tr @ map (\<lambda>p. Center3D_of (fr ! p) ?t)
                 (filter (\<lambda>p. cur' ! p = tr) [0..<?n])) [0..<?old] @
     map (\<lambda>p. [Center3D_of (fr ! p) ?t]) U"
    using uc i_a p4 unfolding fr_t by simp
  txt \<open>An old trajectory and its cluster: unchanged, or extended by one position.\<close>
  have old_traj: "cls ! tr = cluster_of (frs @ [fr]) (trs' ! tr) \<and>
      start (trs' ! tr) + length (positions (trs' ! tr)) \<le> Suc ?t \<and>
      (tr \<in> set cur' \<longrightarrow> start (trs' ! tr) + length (positions (trs' ! tr)) = Suc ?t)"
    if tr: "tr < ?old" for tr
  proof -
    let ?T = "tr2pos ti ! tr"
    let ?F = "filter (\<lambda>p. cur' ! p = tr) [0..<?n]"
    have c: "cls ! tr = cluster_of frs ?T @ map (\<lambda>p. Center3D_of (fr ! p) ?t) ?F"
      using tr i_b by (simp add: cls nth_append)
    have T': "trs' ! tr = ?T\<lparr>positions := positions ?T @ ?F\<rparr>"
      using p1 tr by simp
    have b: "start ?T + length (positions ?T) \<le> length frs"
      using i_s i_l tr by simp
    show ?thesis
    proof (cases "?F = []")
      case True
      have "tr \<notin> set cur'"
      proof
        assume "tr \<in> set cur'"
        then obtain p where "p < ?n" "cur' ! p = tr"
          using l by (metis in_set_conv_nth)
        then have "p \<in> set ?F" by simp
        then show False using True by simp
      qed
      then show ?thesis
        using c T' True cluster_of_unchanged[OF b, of fr] b i_l by simp
    next
      case False
      then have "length ?F = 1"
        using p2 tr by (metis One_nat_def le_Suc_eq le_zero_eq length_0_conv)
      then obtain p where F: "?F = [p]"
        by (metis One_nat_def length_0_conv length_Suc_conv)
      have "tr \<in> set ?prev" using p3 tr False by blast
      then have e: "start ?T + length (positions ?T) = length frs"
        using i_e i_l by simp
      show ?thesis
        using c T' F cluster_of_extended[OF e, of fr p] e i_l by simp
    qed
  qed
  have nth_old: "tr2pos ti' ! tr = trs' ! tr" if "tr < ?old" for tr
    using that l by (simp add: ti' nth_append)
  have nth_new: "tr2pos ti' ! tr = new_Traj ?t (U ! (tr - ?old)) \<and>
      cls ! tr = [Center3D_of (fr ! (U ! (tr - ?old))) ?t]"
    if "\<not> tr < ?old" "tr < ?old + length U" for tr
    using that l by (simp add: ti' cls nth_append)
  have "(frs @ [fr]) ! ?t = fr"
    using i_l by (metis nth_append_length)
  then have new_cluster:
    "cluster_of (frs @ [fr]) (new_Traj ?t p) = [Center3D_of (fr ! p) ?t]" for p
    by (simp add: cluster_of_def new_Traj_def)
  have n_a: "length cls = length (tr2pos ti')"
    by (simp add: cls ti' l)
  have n_len: "length (tr2pos ti') = ?old + length U"
    by (simp add: ti' l)
  have n_b: "\<forall>tr<length (tr2pos ti'). cls ! tr = cluster_of (frs @ [fr]) (tr2pos ti' ! tr)"
  proof (intro allI impI)
    fix tr assume tr: "tr < length (tr2pos ti')"
    show "cls ! tr = cluster_of (frs @ [fr]) (tr2pos ti' ! tr)"
    proof (cases "tr < ?old")
      case True
      then show ?thesis using old_traj[OF True] nth_old[OF True] by simp
    next
      case False
      then show ?thesis using nth_new[OF False] tr n_len new_cluster by simp
    qed
  qed
  have n_s: "\<forall>tr<length (tr2pos ti').
      start (tr2pos ti' ! tr) + length (positions (tr2pos ti' ! tr)) \<le> length (pos2tr ti')"
  proof (intro allI impI)
    fix tr assume tr: "tr < length (tr2pos ti')"
    show "start (tr2pos ti' ! tr) + length (positions (tr2pos ti' ! tr)) \<le> length (pos2tr ti')"
    proof (cases "tr < ?old")
      case True
      then show ?thesis using old_traj[OF True] nth_old[OF True] by (simp add: ti')
    next
      case False
      then show ?thesis using nth_new[OF False] tr n_len by (simp add: ti' new_Traj_def)
    qed
  qed
  have n_e: "\<forall>tr\<in>set cur'. tr < length (tr2pos ti') \<and>
        start (tr2pos ti' ! tr) + length (positions (tr2pos ti' ! tr)) = length (pos2tr ti')"
  proof
    fix tr assume m: "tr \<in> set cur'"
    then obtain p where p: "p < ?n" "cur' ! p = tr"
      using l by (metis in_set_conv_nth)
    show "tr < length (tr2pos ti') \<and>
        start (tr2pos ti' ! tr) + length (positions (tr2pos ti' ! tr)) = length (pos2tr ti')"
    proof (cases "tr < ?old")
      case True
      then show ?thesis
        using old_traj[OF True] nth_old[OF True] m n_len by (simp add: ti')
    next
      case False
      then have b: "tr < ?old + length U"
        using p5 p by auto
      then show ?thesis
        using nth_new[OF False b] n_len by (simp add: ti' new_Traj_def)
    qed
  qed
  have n_l: "length (frs @ [fr]) = length (pos2tr ti')"
    using i_l by (simp add: ti')
  show ?thesis
    unfolding rc_inv_def rc'
    using n_l n_a n_b n_s n_e p6 l by (simp add: ti')
qed

lemma rc_inv_push_back:
  assumes "rc_inv frs rc" and "push_back rc fr tolerance = Inr rc'"
  shows "rc_inv (frs @ [fr]) rc'"
proof (cases "trajectories rc")
  case None
  then have "clusters rc = []" "frs = []" using assms(1) by (simp_all add: rc_inv_def)
  then show ?thesis
    using rc_inv_first_frame[OF None, of fr tolerance] assms(2) by auto
next
  case (Some ti)
  then show ?thesis using assms rc_inv_next_frame by blast
qed

lemma rc_inv_push_all:
  "rc_inv frs rc \<Longrightarrow> push_all rc fts = Inr rc' \<Longrightarrow> rc_inv (frs @ map fst fts) rc'"
proof (induction fts arbitrary: frs rc)
  case Nil
  then show ?case by simp
next
  case (Cons ft fts)
  then obtain rc1 where s: "push_back rc (fst ft) (snd ft) = Inr rc1"
    "push_all rc1 fts = Inr rc'"
    by (auto split: sum.splits)
  have "rc_inv (frs @ [fst ft]) rc1" using rc_inv_push_back[OF Cons.prems(1) s(1)] .
  then have "rc_inv ((frs @ [fst ft]) @ map fst fts) rc'" using Cons.IH s(2) by blast
  then show ?case by simp
qed

text \<open>
  C10. After any sequence of \<open>push_back\<close> calls on a new reconstructor that all return,
  the clusters are as many as the trajectories, and cluster \<open>tr\<close> holds the detections of
  trajectory \<open>tr\<close>: one per frame that the trajectory spans, in increasing frame order.
\<close>

theorem push_back_clusters_follow_trajectories:
  assumes "push_all Reconstructor_init fts = Inr rc" and "trajectories rc = Some ti"
  shows "length (clusters rc) = length (tr2pos ti) \<and>
         (\<forall>tr<length (tr2pos ti).
            clusters rc ! tr = cluster_of (map fst fts) (tr2pos ti ! tr) \<and>
            map z3 (clusters rc ! tr) =
            map real [start (tr2pos ti ! tr)..<
                      start (tr2pos ti ! tr) + length (positions (tr2pos ti ! tr))])"
proof -
  have "rc_inv [] Reconstructor_init"
    by (simp add: rc_inv_def Reconstructor_init_def)
  then have "rc_inv ([] @ map fst fts) rc"
    using assms(1) by (rule rc_inv_push_all)
  then have i: "length (clusters rc) = length (tr2pos ti)"
    "\<forall>tr<length (tr2pos ti). clusters rc ! tr = cluster_of (map fst fts) (tr2pos ti ! tr)"
    using assms(2) by (simp_all add: rc_inv_def)
  then show ?thesis
    using z3_cluster_of[of "map fst fts"] by (simp add: spanned_def)
qed

theorem push_back_clusters_follow_trajectories_witness:
  "push_all Reconstructor_init two_frames = Inr two_frames_pushed \<and>
   trajectories two_frames_pushed = Some two_frames_index \<and>
   length (clusters two_frames_pushed) = length (tr2pos two_frames_index) \<and>
   clusters two_frames_pushed ! 0 = cluster_of (map fst two_frames) (tr2pos two_frames_index ! 0) \<and>
   map z3 (clusters two_frames_pushed ! 0) = [0, 1] \<and>
   map z3 (clusters two_frames_pushed ! 2) = [1]"
proof -
  have e: "push_all Reconstructor_init two_frames = Inr two_frames_pushed"
    by code_simp
  have t: "trajectories two_frames_pushed = Some two_frames_index"
    by (simp add: two_frames_pushed_def)
  note c = push_back_clusters_follow_trajectories[OF e t]
  have s: "tr2pos two_frames_index ! 0 = \<lparr>start = 0, positions = [0, 0]\<rparr>"
    "tr2pos two_frames_index ! 2 = \<lparr>start = 1, positions = [2]\<rparr>"
    "length (tr2pos two_frames_index) = 3"
    by (simp_all add: two_frames_index_def)
  have "map z3 (clusters two_frames_pushed ! 0) = [0, 1]"
    using c[THEN conjunct2, rule_format, of 0, THEN conjunct2] s by simp
  moreover have "clusters two_frames_pushed ! 0 =
      cluster_of (map fst two_frames) (tr2pos two_frames_index ! 0)"
    using c[THEN conjunct2, rule_format, of 0, THEN conjunct1] s(3) by simp
  moreover have "map z3 (clusters two_frames_pushed ! 2) = [1]"
    using c[THEN conjunct2, rule_format, of 2, THEN conjunct2] s by simp
  ultimately show ?thesis
    using e t c[THEN conjunct1] by simp
qed

end
